theory Spec2Isabelle
  imports Main "HOL-Library.Word" "HOL-Library.List_Lexorder" "HOL-Library.Code_Target_Nat"
begin

section \<open>count\_distinct: a sorted-array accumulator of distinct fixed-width values\<close>

text \<open>
  A shallow embedding of \<^verbatim>\<open>count_distinct.c\<close>. The accumulator \<^verbatim>\<open>element_set_t\<close> is a
  record; its \<^verbatim>\<open>data\<close> array is a list of bytes and every pointer of the source is a byte
  offset into it. The \<^verbatim>\<open>uint32\<close> fields are naturals and each arithmetic operation of the
  source on them is wrapped in \<open>u32\<close> (reduction modulo \<open>2^32\<close>). The two uses of floating
  point (the free fraction and the division by 0.8) are written in exact arithmetic.
  Errors are values: a failed \<^verbatim>\<open>Assert\<close> (only in a build with
  \<^verbatim>\<open>USE_ASSERT_CHECKING\<close>), an \<^verbatim>\<open>elog(ERROR, ...)\<close>, and \<open>Undefined\<close> for what C leaves
  undefined (an access outside an allocation, a division by zero).
  What the host provides is collected in a record \<open>host\<close>: whether assertions are compiled
  in, the constant \<^verbatim>\<open>ALLOCSET_SEPARATE_THRESHOLD\<close>, the bytes found in freshly
  allocated memory, and the aggregate memory context that \<^verbatim>\<open>AggCheckCallContext\<close> reports
  (\<open>None\<close> outside an aggregate call). \<^verbatim>\<open>palloc\<close> is taken to succeed.
\<close>

subsection \<open>Bytes, memory and machine numbers\<close>

type_synonym byte = "8 word"

definition u32 :: "nat \<Rightarrow> nat" where
  "u32 n = n mod 2 ^ 32"

text \<open>\<^verbatim>\<open>a - b\<close> on \<^verbatim>\<open>uint32\<close> operands (both below \<open>2^32\<close>).\<close>

definition u32_sub :: "nat \<Rightarrow> nat \<Rightarrow> nat" where
  "u32_sub a b = (a + 2 ^ 32 - b) mod 2 ^ 32"

text \<open>\<^verbatim>\<open>memcmp\<close> over two regions of the same length: the sign of the first differing pair
  of bytes, compared as unsigned characters.\<close>

fun memcmp :: "byte list \<Rightarrow> byte list \<Rightarrow> int" where
  "memcmp (x # xs) (y # ys) = (if x = y then memcmp xs ys else if x < y then - 1 else 1)"
| "memcmp _ _ = 0"

text \<open>Reading \<open>n\<close> bytes at offset \<open>off\<close>, and \<^verbatim>\<open>memcpy\<close> of \<open>bs\<close> to offset \<open>off\<close>. Both are used
  only after \<open>inb\<close> has checked that the region lies inside the allocation.\<close>

definition rd :: "byte list \<Rightarrow> nat \<Rightarrow> nat \<Rightarrow> byte list" where
  "rd d off n = take n (drop off d)"

definition wr :: "byte list \<Rightarrow> nat \<Rightarrow> byte list \<Rightarrow> byte list" where
  "wr d off bs = take off d @ bs @ drop (off + length bs) d"

definition inb :: "byte list \<Rightarrow> nat \<Rightarrow> nat \<Rightarrow> bool" where
  "inb d off n = (off + n \<le> length d)"

text \<open>The first \<open>k\<close> records of \<open>isz\<close> bytes of a region.\<close>

fun chunks :: "nat \<Rightarrow> nat \<Rightarrow> byte list \<Rightarrow> byte list list" where
  "chunks isz 0 bs = []"
| "chunks isz (Suc k) bs = take isz bs # chunks isz k (drop isz bs)"

text \<open>A \<^verbatim>\<open>uint32\<close> in memory, least significant byte first.\<close>

definition enc32 :: "nat \<Rightarrow> byte list" where
  "enc32 n = [of_nat n, of_nat (n div 256), of_nat (n div 65536), of_nat (n div 16777216)]"

definition dec32 :: "byte list \<Rightarrow> nat" where
  "dec32 bs = unat (bs ! 0) + 256 * unat (bs ! 1) + 65536 * unat (bs ! 2)
              + 16777216 * unat (bs ! 3)"

subsection \<open>The accumulator and its host\<close>

datatype error = AssertFailed | Elog string | Undefined

record host =
  assert_checking :: bool
  separate_threshold :: nat
  fresh :: "nat \<Rightarrow> byte"
  agg_context :: "byte list option"

text \<open>\<^verbatim>\<open>palloc(n)\<close>: \<open>n\<close> bytes of indeterminate content.\<close>

definition palloc :: "host \<Rightarrow> nat \<Rightarrow> byte list" where
  "palloc h n = map (fresh h) [0..<n]"

text \<open>\<^verbatim>\<open>repalloc(p, n)\<close>: the old content, cut or extended to \<open>n\<close> bytes.\<close>

definition repalloc :: "host \<Rightarrow> byte list \<Rightarrow> nat \<Rightarrow> byte list" where
  "repalloc h d n = take n d @ drop (length d) (palloc h n)"

text \<open>\<^verbatim>\<open>element_set_t\<close>. The fields before \<^verbatim>\<open>data\<close> are the header that serialization copies:
  four \<^verbatim>\<open>uint32\<close>, the character \<^verbatim>\<open>typalign\<close>, the padding that aligns the following pointer
  (\<open>pad\<close>, 7 bytes on an LP64 target) and the pointer \<^verbatim>\<open>aggctx\<close> (its 8 bytes).\<close>

record element_set =
  item_size :: nat
  nsorted :: nat
  nall :: nat
  nbytes :: nat
  typalign :: byte
  pad :: "byte list"
  aggctx :: "byte list"
  data :: "byte list"

definition ARRAY_INIT_SIZE :: nat where
  "ARRAY_INIT_SIZE = 32"

definition PAD_LEN :: nat where
  "PAD_LEN = 7"

definition PTR_LEN :: nat where
  "PTR_LEN = 8"

text \<open>\<^verbatim>\<open>offsetof(element_set_t, data)\<close>.\<close>

definition HLEN :: nat where
  "HLEN = 16 + 1 + PAD_LEN + PTR_LEN"

text \<open>\<^verbatim>\<open>Assert(c)\<close> followed by the rest of the function.\<close>

definition Assert :: "host \<Rightarrow> bool \<Rightarrow> (error + 'a) \<Rightarrow> (error + 'a)" where
  "Assert h c k = (if assert_checking h \<and> \<not> c then Inl AssertFailed else k)"

definition init_set :: "host \<Rightarrow> nat \<Rightarrow> byte \<Rightarrow> byte list \<Rightarrow> element_set" where
  "init_set h isz ta ctx =
     \<lparr> item_size = isz, nsorted = 0, nall = 0, nbytes = ARRAY_INIT_SIZE,
       typalign = ta, pad = palloc h PAD_LEN, aggctx = ctx,
       data = palloc h ARRAY_INIT_SIZE \<rparr>"

text \<open>The records an accumulator holds, and its sorted zone.\<close>

definition recs :: "element_set \<Rightarrow> byte list list" where
  "recs e = chunks (item_size e) (nall e) (data e)"

definition sorted_zone :: "element_set \<Rightarrow> byte list list" where
  "sorted_zone e = chunks (item_size e) (nsorted e) (data e)"

subsection \<open>Compaction\<close>

text \<open>\<^verbatim>\<open>compare_items\<close>: \<^verbatim>\<open>memcmp\<close> over \<open>sz\<close> bytes (\<^verbatim>\<open>*size\<close>).\<close>

definition compare_items :: "nat \<Rightarrow> byte list \<Rightarrow> byte list \<Rightarrow> int" where
  "compare_items sz a b = memcmp (take sz a) (take sz b)"

text \<open>\<^verbatim>\<open>qsort_arg\<close> is PostgreSQL's sort routine: it orders the items of an array by the
  comparator it is given. An insertion sort stands for it; the comparator used here calls
  two items equal only when their bytes are equal, so every sorting routine leaves the same
  bytes.\<close>

fun insert_item :: "(byte list \<Rightarrow> byte list \<Rightarrow> int) \<Rightarrow> byte list \<Rightarrow> byte list list
    \<Rightarrow> byte list list" where
  "insert_item cmp x [] = [x]"
| "insert_item cmp x (y # ys) =
     (if cmp x y \<le> 0 then x # y # ys else y # insert_item cmp x ys)"

definition qsort_arg :: "(byte list \<Rightarrow> byte list \<Rightarrow> int) \<Rightarrow> byte list list \<Rightarrow> byte list list" where
  "qsort_arg cmp rs = foldr (insert_item cmp) rs []"

text \<open>Sorting in place the \<open>n\<close> items of \<open>isz\<close> bytes that start at offset \<open>base\<close>.\<close>

definition sort_region :: "nat \<Rightarrow> nat \<Rightarrow> nat \<Rightarrow> byte list \<Rightarrow> byte list" where
  "sort_region isz base n d =
     wr d base (concat (qsort_arg (compare_items isz) (chunks isz n (rd d base (n * isz)))))"

text \<open>The loop that removes adjacent duplicates from the sorted pending zone:
  \<^verbatim>\<open>for (i = 1; i < nall - nsorted; i++)\<close>, with \<open>n\<close> the loop bound. It returns the array and
  \<^verbatim>\<open>cnt\<close>; \<open>lst\<close> is the pointer \<^verbatim>\<open>last\<close>.\<close>

function dedup_loop :: "nat \<Rightarrow> nat \<Rightarrow> nat \<Rightarrow> nat \<Rightarrow> byte list \<Rightarrow> nat \<Rightarrow> nat
    \<Rightarrow> error + (byte list \<times> nat)" where
  "dedup_loop isz base n i d lst cnt =
     (if i < n then
        (let curr = base + u32 (i * isz) in
         if \<not> (inb d lst isz \<and> inb d curr isz) then Inl Undefined
         else if memcmp (rd d lst isz) (rd d curr isz) \<noteq> 0 then
           (let lst' = lst + isz;
                d' = (if lst' \<noteq> curr then wr d lst' (rd d curr isz) else d)
            in if \<not> inb d lst' isz then Inl Undefined
               else dedup_loop isz base n (i + 1) d' lst' (cnt + 1))
         else dedup_loop isz base n (i + 1) d lst cnt)
      else Inr (d, cnt))"
  by pat_completeness auto
termination
  by (relation "measure (\<lambda>(isz, base, n, i, d, lst, cnt). n - i)") auto

text \<open>The merge of the sorted zone \<^verbatim>\<open>[a, a_max)\<close> with the pending zone \<^verbatim>\<open>[b, b_max)\<close> into
  the new array \<open>out\<close>, written at \<open>ptr\<close>: the body of \<^verbatim>\<open>while (true)\<close>. It returns the new
  array and the final \<open>ptr\<close>. With \<open>isz = 0\<close> no pointer moves; in \<^verbatim>\<open>compact_set\<close> the loop
  is then left at once and the division by \<^verbatim>\<open>item_size\<close> that follows it is undefined.\<close>

function merge_loop :: "nat \<Rightarrow> byte list \<Rightarrow> nat \<Rightarrow> nat \<Rightarrow> nat \<Rightarrow> nat \<Rightarrow> byte list \<Rightarrow> nat
    \<Rightarrow> error + (byte list \<times> nat)" where
  "merge_loop isz d a a_max b b_max out ptr =
     (if isz = 0 \<or> \<not> (inb d a isz \<and> inb d b isz \<and> inb out ptr isz) then Inl Undefined
      else
        (let r = memcmp (rd d a isz) (rd d b isz);
             out1 = wr out ptr (rd d (if r \<le> 0 then a else b) isz);
             a1 = (if r \<le> 0 then a + isz else a);
             b1 = (if r = 0 \<or> 0 < r then b + isz else b);
             ptr1 = ptr + isz
         in if a1 = a_max \<or> b1 = b_max then
              (if a1 \<noteq> a_max then
                 (if a_max < a1 \<or> \<not> (inb d a1 (a_max - a1) \<and> inb out1 ptr1 (a_max - a1))
                  then Inl Undefined
                  else Inr (wr out1 ptr1 (rd d a1 (a_max - a1)), ptr1 + (a_max - a1)))
               else if b1 \<noteq> b_max then
                 (if b_max < b1 \<or> \<not> (inb d b1 (b_max - b1) \<and> inb out1 ptr1 (b_max - b1))
                  then Inl Undefined
                  else Inr (wr out1 ptr1 (rd d b1 (b_max - b1)), ptr1 + (b_max - b1)))
               else Inr (out1, ptr1))
            else merge_loop isz d a1 a_max b1 b_max out1 ptr1))"
  by pat_completeness auto
termination
  by (relation "measure (\<lambda>(isz, d, a, a_max, b, b_max, out, ptr).
        (Suc (length d) - a) + (Suc (length d) - b))")
     (auto simp: inb_def split: if_splits)

text \<open>The growth of the array at the end of \<^verbatim>\<open>compact_set\<close>. \<^verbatim>\<open>free_fract < 0.2\<close> is
  \<open>5 * free < nbytes\<close>, \<^verbatim>\<open>nbytes / 0.8 < ALLOCSET_SEPARATE_THRESHOLD\<close> is
  \<open>5 * nbytes < 4 * threshold\<close>, and \<^verbatim>\<open>nbytes /= 0.8\<close> is \<open>5 * nbytes div 4\<close>.\<close>

definition grow_set :: "host \<Rightarrow> element_set \<Rightarrow> bool \<Rightarrow> element_set" where
  "grow_set h e need_space =
     (let free = u32_sub (nbytes e) (u32 (nall e * item_size e)) in
      if need_space \<and> 5 * free < nbytes e then
        (let nb = (if 5 * nbytes e < 4 * separate_threshold h
                   then u32 (nbytes e * 2) else u32 (5 * nbytes e div 4))
         in e\<lparr>nbytes := nb, data := repalloc h (data e) nb\<rparr>)
      else e)"

text \<open>The part of \<^verbatim>\<open>compact_set\<close> inside \<^verbatim>\<open>if (eset->nall > eset->nsorted)\<close>.\<close>

definition compact_pending :: "host \<Rightarrow> element_set \<Rightarrow> error + element_set" where
  "compact_pending h e =
     (let isz = item_size e;
          base = u32 (nsorted e * isz);
          n = u32_sub (nall e) (nsorted e)
      in if \<not> inb (data e) base (n * isz) then Inl Undefined
         else
           case dedup_loop isz base n 1 (sort_region isz base n (data e)) base 1 of
             Inl err \<Rightarrow> Inl err
           | Inr (d1, cnt) \<Rightarrow>
               (let nall1 = u32 (nsorted e + cnt);
                    nsorted1 = (if nsorted e = 0 then nall1 else nsorted e);
                    e1 = e\<lparr>nall := nall1, nsorted := nsorted1, data := d1\<rparr>
                in if nsorted1 < nall1 then
                     (case merge_loop isz d1 0 (u32 (nsorted1 * isz)) (u32 (nsorted1 * isz))
                             (u32 (nall1 * isz)) (palloc h (nbytes e)) 0 of
                        Inl err \<Rightarrow> Inl err
                      | Inr (d2, ptr) \<Rightarrow>
                          Assert h (ptr \<le> u32 (nall1 * isz))
                            (Inr (e1\<lparr>nsorted := ptr div isz, nall := ptr div isz,
                                     data := d2\<rparr>)))
                   else Inr e1))"

definition compact_set :: "host \<Rightarrow> element_set \<Rightarrow> bool \<Rightarrow> error + element_set" where
  "compact_set h e need_space =
     Assert h (0 < nall e)
    (Assert h (nsorted e \<le> nall e)
    (Assert h (u32 (nall e * item_size e) \<le> nbytes e)
    (case (if nsorted e < nall e then compact_pending h e else Inr e) of
       Inl err \<Rightarrow> Inl err
     | Inr e1 \<Rightarrow> Assert h (nall e1 = nsorted e1) (Inr (grow_set h e1 need_space)))))"

subsection \<open>Appending a value\<close>

text \<open>\<^verbatim>\<open>add_element\<close>; \<open>v\<close> is the memory at \<^verbatim>\<open>value\<close>, of which \<^verbatim>\<open>item_size\<close> bytes are copied.\<close>

definition add_element :: "host \<Rightarrow> element_set \<Rightarrow> byte list \<Rightarrow> error + element_set" where
  "add_element h e v =
     (case (if nbytes e < u32 (item_size e * u32 (nall e + 1))
            then compact_set h e True else Inr e) of
        Inl err \<Rightarrow> Inl err
      | Inr e1 \<Rightarrow>
          Assert h (u32 (item_size e1 * u32 (nall e1 + 1)) \<le> nbytes e1)
            (let off = u32 (item_size e1 * nall e1) in
             if \<not> (inb v 0 (item_size e1) \<and> inb (data e1) off (item_size e1))
             then Inl Undefined
             else Inr (e1\<lparr>data := wr (data e1) off (rd v 0 (item_size e1)),
                          nall := u32 (nall e1 + 1)\<rparr>)))"

subsection \<open>The aggregate's entry points\<close>

text \<open>\<^verbatim>\<open>CHECK_AGG_CONTEXT\<close> and \<^verbatim>\<open>GET_AGG_CONTEXT\<close>.\<close>

definition NOT_AGG :: error where
  "NOT_AGG = Elog ''called in non-aggregate context''"

definition CHECK_AGG_CONTEXT :: "host \<Rightarrow> (error + 'a) \<Rightarrow> (error + 'a)" where
  "CHECK_AGG_CONTEXT h k = (if agg_context h = None then Inl NOT_AGG else k)"

definition GET_AGG_CONTEXT :: "host \<Rightarrow> (byte list \<Rightarrow> error + 'a) \<Rightarrow> (error + 'a)" where
  "GET_AGG_CONTEXT h k = (case agg_context h of None \<Rightarrow> Inl NOT_AGG | Some ctx \<Rightarrow> k ctx)"

text \<open>What \<^verbatim>\<open>get_typlenbyvalalign\<close> reports for the element type.\<close>

record typinfo =
  typlen :: int
  typbyval :: bool
  ti_align :: byte

text \<open>\<^verbatim>\<open>count_distinct_append\<close>: the state and the new value are \<open>None\<close> when SQL NULL; a
  value is the memory of its \<^verbatim>\<open>Datum\<close>.\<close>

definition count_distinct_append :: "host \<Rightarrow> typinfo \<Rightarrow> element_set option \<Rightarrow> byte list option
    \<Rightarrow> error + element_set option" where
  "count_distinct_append h ti st el =
     (case el of
        None \<Rightarrow> Inr st
      | Some v \<Rightarrow>
          GET_AGG_CONTEXT h (\<lambda>ctx.
            case (case st of
                    None \<Rightarrow>
                      if typlen ti < 0 \<or> \<not> typbyval ti
                      then Inl (Elog ''count_distinct handles only fixed-length types passed by value'')
                      else Inr (init_set h (nat (typlen ti)) (ti_align ti) ctx)
                  | Some e \<Rightarrow> Inr e) of
              Inl err \<Rightarrow> Inl err
            | Inr e \<Rightarrow>
                (case add_element h e v of
                   Inl err \<Rightarrow> Inl err
                 | Inr e1 \<Rightarrow> Inr (Some e1))))"

text \<open>\<^verbatim>\<open>count_distinct\<close>, the final function: the count, or NULL for the NULL state.\<close>

definition count_distinct :: "host \<Rightarrow> element_set option \<Rightarrow> error + nat option" where
  "count_distinct h st =
     CHECK_AGG_CONTEXT h
       (case st of
          None \<Rightarrow> Inr None
        | Some e \<Rightarrow>
            (case compact_set h e False of
               Inl err \<Rightarrow> Inl err
             | Inr e1 \<Rightarrow> Inr (Some (nall e1))))"

text \<open>\<^verbatim>\<open>build_array\<close>: the sorted values as \<^verbatim>\<open>Datum\<close>s, each the item's bytes followed by
  zeros up to the 8 bytes of a \<^verbatim>\<open>Datum\<close>. An item wider than a \<^verbatim>\<open>Datum\<close> would be copied
  beyond the end of the array.\<close>

definition build_array :: "host \<Rightarrow> element_set \<Rightarrow> error + byte list list" where
  "build_array h e =
     (case compact_set h e False of
        Inl err \<Rightarrow> Inl err
      | Inr e1 \<Rightarrow>
          if 0 < nsorted e1 \<and>
             (8 < item_size e1 \<or> \<not> inb (data e1) 0 (nsorted e1 * item_size e1))
          then Inl Undefined
          else Inr (map (\<lambda>r. r @ replicate (8 - item_size e1) 0)
                     (chunks (item_size e1) (nsorted e1) (data e1))))"

text \<open>\<^verbatim>\<open>array_agg_distinct_type_by_element\<close>: the empty array for the NULL state.\<close>

definition array_agg_distinct :: "host \<Rightarrow> element_set option \<Rightarrow> error + byte list list" where
  "array_agg_distinct h st =
     CHECK_AGG_CONTEXT h (case st of None \<Rightarrow> Inr [] | Some e \<Rightarrow> build_array h e)"

subsection \<open>Serialization\<close>

text \<open>The first \<^verbatim>\<open>offsetof(element_set_t, data)\<close> bytes of the structure.\<close>

definition header :: "element_set \<Rightarrow> byte list" where
  "header e = enc32 (item_size e) @ enc32 (nsorted e) @ enc32 (nall e) @ enc32 (nbytes e)
              @ [typalign e] @ pad e @ aggctx e"

text \<open>\<^verbatim>\<open>count_distinct_serial\<close>; the result is the content of the \<^verbatim>\<open>bytea\<close>.\<close>

definition count_distinct_serial :: "host \<Rightarrow> element_set \<Rightarrow> error + byte list" where
  "count_distinct_serial h e =
     CHECK_AGG_CONTEXT h
       (case compact_set h e False of
          Inl err \<Rightarrow> Inl err
        | Inr e1 \<Rightarrow>
            Assert h (0 < nall e1)
           (Assert h (nall e1 = nsorted e1)
           (let dlen = u32 (nall e1 * item_size e1) in
            if \<not> inb (data e1) 0 dlen then Inl Undefined
            else Inr (header e1 @ rd (data e1) 0 dlen))))"

text \<open>\<^verbatim>\<open>count_distinct_deserial\<close>; \<open>state\<close> is the content of the \<^verbatim>\<open>bytea\<close> and \<^verbatim>\<open>len\<close> its length.
  \<^verbatim>\<open>len - offsetof(element_set_t, data)\<close> is computed in the 64 bits of \<^verbatim>\<open>Size\<close>.\<close>

definition count_distinct_deserial :: "host \<Rightarrow> byte list \<Rightarrow> error + element_set" where
  "count_distinct_deserial h state =
     (let len = length state in
      CHECK_AGG_CONTEXT h
     (Assert h (0 < len)
     (Assert h (0 < (len + 2 ^ 64 - HLEN) mod 2 ^ 64)
     (if \<not> inb state 0 HLEN then Inl Undefined
      else
        (let isz = dec32 (rd state 0 4);
             ns = dec32 (rd state 4 4);
             na = dec32 (rd state 8 4);
             n = u32 (na * isz)
         in Assert h (0 < na \<and> na = ns)
           (Assert h (len = HLEN + n)
           (if \<not> inb state HLEN n then Inl Undefined
            else Inr \<lparr> item_size = isz, nsorted = ns, nall = na, nbytes = n,
                       typalign = state ! 16, pad = rd state 17 PAD_LEN,
                       aggctx = rd state (17 + PAD_LEN) PTR_LEN,
                       data = rd state HLEN n \<rparr>)))))))"

subsection \<open>Combining two accumulators\<close>

text \<open>One turn of the merge loop of \<^verbatim>\<open>count_distinct_combine\<close>, first half: the choice of
  \<^verbatim>\<open>element\<close>. The ends of the two scans are \<^verbatim>\<open>data + nbytes\<close> of each operand. The result
  is the item read at \<^verbatim>\<open>element\<close> and the new \<^verbatim>\<open>ptr1\<close> and \<^verbatim>\<open>ptr2\<close>.\<close>

definition pick_element :: "element_set \<Rightarrow> element_set \<Rightarrow> nat \<Rightarrow> nat
    \<Rightarrow> error + (byte list \<times> nat \<times> nat)" where
  "pick_element e1 e2 ptr1 ptr2 =
     (let isz = item_size e1 in
      if ptr1 < nbytes e1 \<and> ptr2 < nbytes e2 then
        (if \<not> (inb (data e1) ptr1 isz \<and> inb (data e2) ptr2 isz) then Inl Undefined
         else if memcmp (rd (data e1) ptr1 isz) (rd (data e2) ptr2 isz) \<le> 0
              then Inr (rd (data e1) ptr1 isz, ptr1 + isz, ptr2)
              else Inr (rd (data e2) ptr2 isz, ptr1, ptr2 + isz))
      else if ptr1 < nbytes e1 then
        (if \<not> inb (data e1) ptr1 isz then Inl Undefined
         else Inr (rd (data e1) ptr1 isz, ptr1 + isz, ptr2))
      else if ptr2 < nbytes e2 then
        (if \<not> inb (data e2) ptr2 isz then Inl Undefined
         else Inr (rd (data e2) ptr2 isz, ptr1, ptr2 + item_size e2))
      else Inl (Elog ''unexpected''))"

text \<open>Second half: \<^verbatim>\<open>element\<close> is copied to \<^verbatim>\<open>tmp\<close> unless it equals the item at \<^verbatim>\<open>prev\<close>. The
  result is the output array, \<^verbatim>\<open>tmp\<close> and \<^verbatim>\<open>prev\<close>.\<close>

definition keep_element :: "host \<Rightarrow> nat \<Rightarrow> byte list \<Rightarrow> byte list \<Rightarrow> nat \<Rightarrow> nat
    \<Rightarrow> error + (byte list \<times> nat \<times> nat)" where
  "keep_element h isz element out tmp prev =
     (if tmp = 0 then
        (if \<not> inb out tmp isz then Inl Undefined
         else Inr (wr out tmp element, tmp + isz, tmp))
      else if \<not> inb out prev isz then Inl Undefined
      else if memcmp (rd out prev isz) element \<noteq> 0 then
        Assert h (memcmp (rd out prev isz) element < 0)
          (if \<not> inb out tmp isz then Inl Undefined
           else Inr (wr out tmp element, tmp + isz, tmp))
      else Inr (out, tmp, prev))"

text \<open>\<^verbatim>\<open>for (i = 0; i < eset1->nall + eset2->nall; i++)\<close>, with \<open>n\<close> the loop bound. The state
  is \<^verbatim>\<open>ptr1\<close>, \<^verbatim>\<open>ptr2\<close>, the output array, \<^verbatim>\<open>tmp\<close> and \<^verbatim>\<open>prev\<close>.\<close>

function combine_loop :: "host \<Rightarrow> element_set \<Rightarrow> element_set \<Rightarrow> nat \<Rightarrow> nat
    \<Rightarrow> nat \<times> nat \<times> byte list \<times> nat \<times> nat
    \<Rightarrow> error + (nat \<times> nat \<times> byte list \<times> nat \<times> nat)" where
  "combine_loop h e1 e2 n i (ptr1, ptr2, out, tmp, prev) =
     (if i < n then
        Assert h (ptr1 \<le> nbytes e1)
       (Assert h (ptr2 \<le> nbytes e2)
       (case pick_element e1 e2 ptr1 ptr2 of
          Inl err \<Rightarrow> Inl err
        | Inr (element, ptr1', ptr2') \<Rightarrow>
            (case keep_element h (item_size e1) element out tmp prev of
               Inl err \<Rightarrow> Inl err
             | Inr (out', tmp', prev') \<Rightarrow>
                 combine_loop h e1 e2 n (i + 1) (ptr1', ptr2', out', tmp', prev'))))
      else Inr (ptr1, ptr2, out, tmp, prev))"
  by pat_completeness auto
termination
  by (relation "measure (\<lambda>(h, e1, e2, n, i, st). n - i)") auto

text \<open>\<^verbatim>\<open>count_distinct_combine\<close>. A NULL first state is replaced by a fresh structure that
  receives the four counters and a copy of the array of the second; its other header
  fields stay as allocated.\<close>

definition count_distinct_combine :: "host \<Rightarrow> element_set option \<Rightarrow> element_set option
    \<Rightarrow> error + element_set option" where
  "count_distinct_combine h st1 st2 =
     GET_AGG_CONTEXT h (\<lambda>ctx.
       case st2 of
         None \<Rightarrow> Inr st1
       | Some eset2 \<Rightarrow>
          (case st1 of
             None \<Rightarrow>
               if \<not> inb (data eset2) 0 (nbytes eset2) then Inl Undefined
               else Inr (Some \<lparr> item_size = item_size eset2, nsorted = nsorted eset2,
                                 nall = nall eset2, nbytes = nbytes eset2,
                                 typalign = fresh h 16,
                                 pad = map (fresh h) [17 ..< 17 + PAD_LEN],
                                 aggctx = map (fresh h) [17 + PAD_LEN ..< HLEN],
                                 data = rd (data eset2) 0 (nbytes eset2) \<rparr>)
           | Some eset1 \<Rightarrow>
               Assert h (0 < item_size eset1 \<and> item_size eset1 = item_size eset2)
                 (case compact_set h eset1 False of
                    Inl err \<Rightarrow> Inl err
                  | Inr e1 \<Rightarrow>
                     (case compact_set h eset2 False of
                        Inl err \<Rightarrow> Inl err
                      | Inr e2 \<Rightarrow>
                         (case combine_loop h e1 e2 (u32 (nall e1 + nall e2)) 0
                                 (0, 0, palloc h (u32 (nbytes e1 + nbytes e2)), 0, 0) of
                            Inl err \<Rightarrow> Inl err
                          | Inr (ptr1, ptr2, out, tmp, prev) \<Rightarrow>
                              Assert h (ptr1 = u32 (nall e1 * item_size e1))
                             (Assert h (ptr2 = u32 (nall e2 * item_size e2))
                             (Assert h (tmp \<le> u32 (u32 (nall e1 + nall e2) * item_size e1))
                             (if item_size e1 = 0 then Inl Undefined
                              else Inr (Some (e1\<lparr>data := out, nbytes := tmp,
                                                 nall := tmp div item_size e1,
                                                 nsorted := tmp div item_size e1\<rparr>))))))))))"

subsection \<open>Building an accumulator, and the states the properties are about\<close>

text \<open>Appending the values of a list one at a time, from the given state.\<close>

fun append_all :: "host \<Rightarrow> typinfo \<Rightarrow> element_set option \<Rightarrow> byte list list
    \<Rightarrow> error + element_set option" where
  "append_all h ti st [] = Inr st"
| "append_all h ti st (v # vs) =
     (case count_distinct_append h ti st (Some v) of
        Inl err \<Rightarrow> Inl err
      | Inr st' \<Rightarrow> append_all h ti st' vs)"

text \<open>The invariant of the accumulator: the counters are consistent with each other and
  with the allocation, every counter fits its \<^verbatim>\<open>uint32\<close> field, and the sorted zone is
  strictly increasing in the order of \<^verbatim>\<open>memcmp\<close> (the lexicographic order of the bytes).\<close>

definition wf_set :: "element_set \<Rightarrow> bool" where
  "wf_set e \<longleftrightarrow>
     0 < item_size e \<and> nsorted e \<le> nall e \<and> nall e * item_size e \<le> nbytes e \<and>
     nbytes e \<le> length (data e) \<and> nbytes e < 2 ^ 32 \<and>
     sorted_wrt (<) (sorted_zone e)"

text \<open>The header fields that are not counters have the sizes of the structure's layout.\<close>

definition wf_header :: "element_set \<Rightarrow> bool" where
  "wf_header e \<longleftrightarrow> length (pad e) = PAD_LEN \<and> length (aggctx e) = PTR_LEN"

text \<open>\<^verbatim>\<open>MaxAllocSize\<close>, the largest request \<^verbatim>\<open>palloc\<close> accepts: no array is larger.\<close>

definition MaxAllocSize :: nat where
  "MaxAllocSize = 1073741823"

text \<open>An accumulator has no slack when its capacity is exactly its records.\<close>

definition tight :: "element_set \<Rightarrow> bool" where
  "tight e \<longleftrightarrow> nbytes e = nall e * item_size e"

text \<open>Values for the examples: a host (with or without assertion checking, and with any
  content \<open>f\<close> of fresh memory), the type \<^verbatim>\<open>int4\<close>, and the \<^verbatim>\<open>Datum\<close> of a small integer.\<close>

definition ex_host :: "bool \<Rightarrow> (nat \<Rightarrow> byte) \<Rightarrow> host" where
  "ex_host chk f = \<lparr> assert_checking = chk, separate_threshold = 8192,
                      fresh = f, agg_context = Some (replicate 8 0) \<rparr>"

definition int4 :: typinfo where
  "int4 = \<lparr> typlen = 4, typbyval = True, ti_align = 105 \<rparr>"

definition datum :: "nat \<Rightarrow> byte list" where
  "datum n = enc32 n @ [0, 0, 0, 0]"

text \<open>The accumulator built from a list of small integers.\<close>

definition built :: "host \<Rightarrow> nat list \<Rightarrow> element_set option" where
  "built h ns = (case append_all h int4 None (map datum ns) of
                   Inl err \<Rightarrow> None | Inr st \<Rightarrow> st)"

text \<open>The accumulator after the values 5, 3, 5, 1, 3, 2 were appended, none compacted yet.\<close>

definition ex_acc :: element_set where
  "ex_acc = \<lparr> item_size = 4, nsorted = 0, nall = 6, nbytes = 32, typalign = 105,
               pad = replicate 7 0, aggctx = replicate 8 0,
               data = concat (map enc32 [5, 3, 5, 1, 3, 2]) @ replicate 8 0 \<rparr>"

text \<open>Both final functions at once: the count and the sorted values.\<close>

definition finalize :: "host \<Rightarrow> element_set option \<Rightarrow> (error + nat option) \<times> (error + byte list list)" where
  "finalize h st = (count_distinct h st, array_agg_distinct h st)"

text \<open>\<^verbatim>\<open>count_distinct_combine\<close> followed by both final functions.\<close>

definition combine_finalize :: "host \<Rightarrow> element_set option \<Rightarrow> element_set option
    \<Rightarrow> error + ((error + nat option) \<times> (error + byte list list))" where
  "combine_finalize h st1 st2 =
     (case count_distinct_combine h st1 st2 of
        Inl err \<Rightarrow> Inl err
      | Inr st \<Rightarrow> Inr (finalize h st))"

subsection \<open>What the loops compute, on lists of items\<close>

text \<open>The merge of two increasing lists that keeps one copy of an item present in both.\<close>

fun merge_distinct :: "'a::linorder list \<Rightarrow> 'a list \<Rightarrow> 'a list" where
  "merge_distinct [] ys = ys"
| "merge_distinct xs [] = xs"
| "merge_distinct (x # xs) (y # ys) =
     (if x = y then x # merge_distinct xs ys
      else if x < y then x # merge_distinct xs (y # ys)
      else y # merge_distinct (x # xs) ys)"

section \<open>Properties\<close>

declare dedup_loop.simps [simp del] merge_loop.simps [simp del] combine_loop.simps [simp del]

lemma u32_id: "n < 2 ^ 32 \<Longrightarrow> u32 n = n"
  by (simp add: u32_def)

lemma u32_sub_id: "b \<le> a \<Longrightarrow> a < 2 ^ 32 \<Longrightarrow> u32_sub a b = a - b"
proof -
  assume le: "b \<le> a" and lt: "a < 2 ^ 32"
  have "u32_sub a b = ((a - b) + 2 ^ 32) mod 2 ^ 32"
    unfolding u32_sub_def using le by (intro arg_cong [where f = "\<lambda>x. x mod 2 ^ 32"]) arith
  also have "\<dots> = (a - b) mod 2 ^ 32" by (rule mod_add_self2)
  also have "\<dots> = a - b" using lt by (intro mod_less) arith
  finally show ?thesis .
qed

lemma memcmp_eq: "length a = length b \<Longrightarrow> (memcmp a b = 0) = (a = b)"
  by (induction a b rule: memcmp.induct) auto

lemma memcmp_less: "length a = length b \<Longrightarrow> (memcmp a b < 0) = (a < b)"
  by (induction a b rule: memcmp.induct) auto

lemma memcmp_le: "length a = length b \<Longrightarrow> (memcmp a b \<le> 0) = (a \<le> b)"
  using memcmp_eq [of a b] memcmp_less [of a b] by (auto simp: order_le_less)

lemma memcmp_gt: "length a = length b \<Longrightarrow> (0 < memcmp a b) = (b < a)"
  using memcmp_le [of a b] by auto

lemma compare_items_le:
  "length a = sz \<Longrightarrow> length b = sz \<Longrightarrow> (compare_items sz a b \<le> 0) = (a \<le> b)"
  by (simp add: compare_items_def memcmp_le)

lemma insert_item_insort:
  "length x = sz \<Longrightarrow> \<forall>y\<in>set ys. length y = sz \<Longrightarrow>
     insert_item (compare_items sz) x ys = insort x ys"
  by (induction ys) (auto simp: compare_items_le)

lemma length_insort_elems:
  "length x = sz \<Longrightarrow> \<forall>y\<in>set ys. length y = sz \<Longrightarrow> \<forall>y\<in>set (insort x ys). length y = sz"
  by (simp add: set_insort_key)

lemma qsort_arg_sort:
  "\<forall>r\<in>set rs. length r = sz \<Longrightarrow> qsort_arg (compare_items sz) rs = sort rs"
proof (induction rs)
  case Nil
  then show ?case by (simp add: qsort_arg_def)
next
  case (Cons r rs)
  then have "qsort_arg (compare_items sz) rs = sort rs" by simp
  moreover have "\<forall>y\<in>set (sort rs). length y = sz" using Cons.prems by simp
  ultimately show ?case
    using Cons.prems by (simp add: qsort_arg_def insert_item_insort)
qed

lemma rd_at: "off = length p \<Longrightarrow> n = length r \<Longrightarrow> rd (p @ r @ q) off n = r"
  by (simp add: rd_def)

lemma wr_at: "off = length p \<Longrightarrow> length bs = length r \<Longrightarrow> wr (p @ r @ q) off bs = p @ bs @ q"
  by (simp add: wr_def)

lemma inb_at: "off = length p \<Longrightarrow> n = length r \<Longrightarrow> inb (p @ r @ q) off n"
  by (simp add: inb_def)

lemma length_concat_recs:
  "\<forall>r\<in>set rs. length r = isz \<Longrightarrow> length (concat rs) = length rs * isz"
  by (induction rs) auto

lemma chunks_concat:
  "\<forall>r\<in>set rs. length r = isz \<Longrightarrow> chunks isz (length rs) (concat rs @ q) = rs"
  by (induction rs) auto

lemma length_chunks [simp]: "length (chunks isz k bs) = k"
  by (induction k arbitrary: bs) auto

lemma chunks_lengths:
  "k * isz \<le> length bs \<Longrightarrow> r \<in> set (chunks isz k bs) \<Longrightarrow> length r = isz"
proof (induction k arbitrary: bs)
  case 0
  then show ?case by simp
next
  case (Suc k)
  from Suc.prems(1) have a: "isz \<le> length bs" and b: "k * isz \<le> length (drop isz bs)"
    by simp_all
  from Suc.prems(2) have "r = take isz bs \<or> r \<in> set (chunks isz k (drop isz bs))" by simp
  then show ?case
  proof
    assume "r = take isz bs"
    with a show ?thesis by simp
  next
    assume "r \<in> set (chunks isz k (drop isz bs))"
    with Suc.IH [OF b] show ?thesis .
  qed
qed

lemma concat_chunks:
  "k * isz \<le> length bs \<Longrightarrow> concat (chunks isz k bs) = take (k * isz) bs"
proof (induction k arbitrary: bs)
  case 0
  then show ?case by simp
next
  case (Suc k)
  from Suc.prems have a: "isz \<le> length bs" and b: "k * isz \<le> length (drop isz bs)" by simp_all
  have "take (Suc k * isz) bs = take isz bs @ take (k * isz) (drop isz bs)"
    by (simp add: take_add add.commute)
  with Suc.IH [OF b] show ?case by simp
qed

lemma chunks_add:
  "chunks isz (k + m) bs = chunks isz k bs @ chunks isz m (drop (k * isz) bs)"
  by (induction k arbitrary: bs) (auto simp: add.commute)

lemma chunks_take:
  "k * isz \<le> n \<Longrightarrow> chunks isz k (take n bs) = chunks isz k bs"
proof (induction k arbitrary: bs n)
  case 0
  then show ?case by simp
next
  case (Suc k)
  from Suc.prems have "isz \<le> n" "k * isz \<le> n - isz" by simp_all
  with Suc.IH [of "n - isz" "drop isz bs"] show ?case
    by (simp add: drop_take min_absorb2)
qed

lemma chunks_append_left:
  "k * isz \<le> length bs \<Longrightarrow> chunks isz k (bs @ q) = chunks isz k bs"
proof (induction k arbitrary: bs)
  case 0
  then show ?case by simp
next
  case (Suc k)
  from Suc.prems have "isz \<le> length bs" "k * isz \<le> length (drop isz bs)" by simp_all
  with Suc.IH [of "drop isz bs"] show ?case by simp
qed

text \<open>data = concat recs @ rest\<close>
lemma data_split:
  "k * isz \<le> length bs \<Longrightarrow> bs = concat (chunks isz k bs) @ drop (k * isz) bs"
  by (simp add: concat_chunks)

lemma length_rd: "inb d off n \<Longrightarrow> length (rd d off n) = n"
  by (simp add: rd_def inb_def)

lemma dedup_step:
  assumes "i < n" and "i * isz < 2 ^ 32"
    and "inb d lst isz" and "inb d (base + i * isz) isz" and "inb d (lst + isz) isz"
  shows "dedup_loop isz base n i d lst cnt =
     (if rd d lst isz \<noteq> rd d (base + i * isz) isz
      then dedup_loop isz base n (i + 1)
             (if lst + isz \<noteq> base + i * isz then wr d (lst + isz) (rd d (base + i * isz) isz) else d)
             (lst + isz) (cnt + 1)
      else dedup_loop isz base n (i + 1) d lst cnt)"
proof -
  have eq: "(memcmp (rd d lst isz) (rd d (base + i * isz) isz) \<noteq> 0)
        = (rd d lst isz \<noteq> rd d (base + i * isz) isz)"
    using assms(3,4) by (simp add: memcmp_eq length_rd)
  note unf = dedup_loop.simps [of isz base n i d lst cnt]
  show ?thesis
    unfolding unf using assms(1,3,4,5) by (simp add: u32_id [OF assms(2)] Let_def eq del: memcmp.simps)
qed

lemma dedup_done: "\<not> i < n \<Longrightarrow> dedup_loop isz base n i d lst cnt = Inr (d, cnt)"
  by (subst dedup_loop.simps) simp


lemma take_drop_app: "take n xs @ drop n xs @ ys = xs @ ys"
  by (metis append_assoc append_take_drop_id)

lemma dedup_loop_spec:
  assumes "0 < isz"
    and "\<forall>r\<in>set ks. length r = isz" and "\<forall>r\<in>set rest. length r = isz"
    and "ks \<noteq> []" and "length pre = base" and "length mid = m * isz"
    and "n = length ks + m + length rest" and "n * isz < 2 ^ 32"
  shows "\<exists>mid'. dedup_loop isz base n (length ks + m)
            (pre @ concat ks @ mid @ concat rest @ post)
            (base + (length ks - 1) * isz) (length ks)
          = Inr (pre @ concat (butlast ks @ remdups_adj (last ks # rest)) @ mid' @ post,
                 length (butlast ks @ remdups_adj (last ks # rest)))
        \<and> length (concat (butlast ks @ remdups_adj (last ks # rest)) @ mid') = n * isz"
  using assms(2-)
proof (induction rest arbitrary: ks mid m)
  case Nil
  have "\<not> length ks + m < n" using Nil by simp
  moreover have "length (concat ks @ mid) = n * isz"
    using Nil by (simp add: length_concat_recs add_mult_distrib)
  ultimately show ?case
    using Nil by (intro exI [of _ mid]) (simp add: dedup_done)
next
  case (Cons r rs)
  let ?kb = "butlast ks" and ?kl = "last ks"
  let ?i = "length ks + m"
  let ?d = "pre @ concat ks @ mid @ concat (r # rs) @ post"
  let ?lst = "base + (length ks - 1) * isz"
  have ks: "ks = ?kb @ [?kl]" using Cons.prems(3) by simp
  have len_kl: "length ?kl = isz" using Cons.prems(1,3) by simp
  have len_r: "length r = isz" using Cons.prems(2) by simp
  have "\<forall>x\<in>set ?kb. length x = isz" using Cons.prems(1) by (auto dest: in_set_butlastD)
  from length_concat_recs [OF this]
  have len_kb: "length (concat ?kb) = (length ks - 1) * isz" by simp
  have len_ks: "length (concat ks) = length ks * isz"
    using Cons.prems(1) by (simp add: length_concat_recs)
  have i_lt: "?i < n" using Cons.prems(6) by simp
  have i_isz: "?i * isz < 2 ^ 32"
  proof -
    have "?i * isz \<le> n * isz" using i_lt by (intro mult_le_mono1) simp
    then show ?thesis using Cons.prems(7) by (rule le_less_trans)
  qed
  have d1: "?d = (pre @ concat ?kb) @ ?kl @ (mid @ concat (r # rs) @ post)"
    by (subst ks) simp
  have d2: "?d = (pre @ concat ks @ mid) @ r @ (concat rs @ post)"
    by simp
  have off1: "?lst = length (pre @ concat ?kb)"
    using Cons.prems(4) len_kb by simp
  have off2: "base + ?i * isz = length (pre @ concat ks @ mid)"
    using Cons.prems(4,5) len_ks by (simp add: add_mult_distrib)
  have rd1: "rd ?d ?lst isz = ?kl"
    by (subst d1) (rule rd_at [OF off1 len_kl [symmetric]])
  have rd2: "rd ?d (base + ?i * isz) isz = r"
    by (subst d2) (rule rd_at [OF off2 len_r [symmetric]])
  have inb1: "inb ?d ?lst isz"
    by (subst d1) (rule inb_at [OF off1 len_kl [symmetric]])
  have inb2: "inb ?d (base + ?i * isz) isz"
    by (subst d2) (rule inb_at [OF off2 len_r [symmetric]])
  have lst': "?lst + isz = base + length ks * isz"
    using Cons.prems(3) by (cases ks) simp_all
  have inb3: "inb ?d (?lst + isz) isz"
    using inb2 lst' by (simp add: inb_def add_mult_distrib)
  note step = dedup_step [OF i_lt i_isz inb1 inb2 inb3, of "length ks", unfolded rd1 rd2]
  show ?case
  proof (cases "?kl = r")
    case True
    have call: "dedup_loop isz base n ?i ?d ?lst (length ks)
        = dedup_loop isz base n (length ks + (m + 1)) (pre @ concat ks @ (mid @ r) @ concat rs @ post)
            ?lst (length ks)"
      by (subst step) (simp add: True)
    have "length (mid @ r) = (m + 1) * isz" using Cons.prems(5) len_r by simp
    from Cons.IH [OF Cons.prems(1) _ Cons.prems(3,4) this _ Cons.prems(7)] Cons.prems(2,6)
    obtain mid' where
      "dedup_loop isz base n (length ks + (m + 1)) (pre @ concat ks @ (mid @ r) @ concat rs @ post)
          ?lst (length ks)
        = Inr (pre @ concat (?kb @ remdups_adj (?kl # rs)) @ mid' @ post,
               length (?kb @ remdups_adj (?kl # rs)))"
      "length (concat (?kb @ remdups_adj (?kl # rs)) @ mid') = n * isz"
      by auto
    moreover have "remdups_adj (?kl # r # rs) = remdups_adj (?kl # rs)" using True by simp
    ultimately show ?thesis unfolding call by (intro exI [of _ mid']) simp
  next
    case False
    let ?ks' = "ks @ [r]"
    have ks'1: "\<forall>x\<in>set ?ks'. length x = isz" using Cons.prems(1) len_r by simp
    have K: "butlast ?ks' @ remdups_adj (last ?ks' # rs) = ?kb @ remdups_adj (?kl # r # rs)"
      using False ks by (metis append_Cons append_Nil append_assoc butlast_snoc last_snoc remdups_adj.simps(3))
    show ?thesis
    proof (cases "m = 0")
      case True
      then have mid: "mid = []" using Cons.prems(5) by simp
      have call: "dedup_loop isz base n ?i ?d ?lst (length ks)
          = dedup_loop isz base n (length ?ks' + 0) (pre @ concat ?ks' @ [] @ concat rs @ post)
              (base + (length ?ks' - 1) * isz) (length ?ks')"
        by (subst step [unfolded lst']) (simp add: False True mid)
      from Cons.IH [OF ks'1 _ _ Cons.prems(4) _ _ Cons.prems(7), of "[]" 0] Cons.prems(2,6) True
      obtain mid' where
        "dedup_loop isz base n (length ?ks' + 0) (pre @ concat ?ks' @ [] @ concat rs @ post)
            (base + (length ?ks' - 1) * isz) (length ?ks')
          = Inr (pre @ concat (butlast ?ks' @ remdups_adj (last ?ks' # rs)) @ mid' @ post,
                 length (butlast ?ks' @ remdups_adj (last ?ks' # rs)))"
        "length (concat (butlast ?ks' @ remdups_adj (last ?ks' # rs)) @ mid') = n * isz"
        by auto
      then show ?thesis unfolding call K by (intro exI [of _ mid']) simp
    next
      case m: False
      let ?m1 = "take isz mid" and ?m2 = "drop isz mid"
      have len_m1: "length ?m1 = isz" using m Cons.prems(5) \<open>0 < isz\<close> by (cases m) simp_all
      have ne: "?lst + isz \<noteq> base + ?i * isz"
        using m \<open>0 < isz\<close> lst' by (simp add: add_mult_distrib)
      have off3: "?lst + isz = length (pre @ concat ks)"
        using lst' Cons.prems(4) len_ks by simp
      have len_eq: "length r = length ?m1" using len_r len_m1 by (simp only:)
      have "wr ((pre @ concat ks) @ ?m1 @ (?m2 @ concat (r # rs) @ post)) (?lst + isz) r
          = (pre @ concat ks) @ r @ (?m2 @ concat (r # rs) @ post)"
        by (rule wr_at [OF off3 len_eq])
      then have wr3: "wr ?d (?lst + isz) r = pre @ concat ?ks' @ (?m2 @ r) @ concat rs @ post"
        by (simp add: take_drop_app)
      have call: "dedup_loop isz base n ?i ?d ?lst (length ks)
          = dedup_loop isz base n (length ?ks' + m) (pre @ concat ?ks' @ (?m2 @ r) @ concat rs @ post)
              (base + (length ?ks' - 1) * isz) (length ?ks')"
      proof -
        have "dedup_loop isz base n ?i ?d ?lst (length ks)
            = dedup_loop isz base n (?i + 1) (wr ?d (?lst + isz) r) (?lst + isz) (length ks + 1)"
          by (subst step) (simp only: False ne if_True not_False_eq_True)
        also have "\<dots> = dedup_loop isz base n (length ?ks' + m)
              (pre @ concat ?ks' @ (?m2 @ r) @ concat rs @ post)
              (base + (length ?ks' - 1) * isz) (length ?ks')"
          unfolding lst' wr3 [unfolded lst'] by simp
        finally show ?thesis .
      qed
      have "length (?m2 @ r) = m * isz"
        using Cons.prems(5) len_r m by (cases m) simp_all
      from Cons.IH [OF ks'1 _ _ Cons.prems(4) this _ Cons.prems(7)] Cons.prems(2,6)
      obtain mid' where
        "dedup_loop isz base n (length ?ks' + m) (pre @ concat ?ks' @ (?m2 @ r) @ concat rs @ post)
            (base + (length ?ks' - 1) * isz) (length ?ks')
          = Inr (pre @ concat (butlast ?ks' @ remdups_adj (last ?ks' # rs)) @ mid' @ post,
                 length (butlast ?ks' @ remdups_adj (last ?ks' # rs)))"
        "length (concat (butlast ?ks' @ remdups_adj (last ?ks' # rs)) @ mid') = n * isz"
        by auto
      then show ?thesis unfolding call K by (intro exI [of _ mid']) simp
    qed
  qed
qed

lemma merge_step:
  assumes "0 < isz"
    and dA: "d = pA @ x @ qA" and "length pA = a" and lx: "length x = isz"
    and dB: "d = pB @ y @ qB" and "length pB = b" and ly: "length y = isz"
    and o: "out = done @ j1 @ j2" and "length done = ptr" and lj: "length j1 = isz"
  shows "merge_loop isz d a a_max b b_max out ptr =
     (let out1 = done @ (if x \<le> y then x else y) @ j2;
          a1 = (if x \<le> y then a + isz else a);
          b1 = (if y \<le> x then b + isz else b);
          ptr1 = ptr + isz
      in if a1 = a_max \<or> b1 = b_max then
           (if a1 \<noteq> a_max then
              (if a_max < a1 \<or> \<not> (inb d a1 (a_max - a1) \<and> inb out1 ptr1 (a_max - a1))
               then Inl Undefined
               else Inr (wr out1 ptr1 (rd d a1 (a_max - a1)), ptr1 + (a_max - a1)))
            else if b1 \<noteq> b_max then
              (if b_max < b1 \<or> \<not> (inb d b1 (b_max - b1) \<and> inb out1 ptr1 (b_max - b1))
               then Inl Undefined
               else Inr (wr out1 ptr1 (rd d b1 (b_max - b1)), ptr1 + (b_max - b1)))
            else Inr (out1, ptr1))
         else merge_loop isz d a1 a_max b1 b_max out1 ptr1)"
proof -
  have rx: "rd d a isz = x" by (subst dA) (rule rd_at, simp_all add: assms)
  have ry: "rd d b isz = y" by (subst dB) (rule rd_at, simp_all add: assms)
  have ia: "inb d a isz" by (subst dA) (rule inb_at, simp_all add: assms)
  have ib: "inb d b isz" by (subst dB) (rule inb_at, simp_all add: assms)
  have io: "inb out ptr isz" by (subst o) (rule inb_at, simp_all add: assms)
  have le: "(memcmp x y \<le> 0) = (x \<le> y)" by (simp add: memcmp_le lx ly)
  have ge: "(memcmp x y = 0 \<or> 0 < memcmp x y) = (y \<le> x)"
    using memcmp_eq [of x y] memcmp_gt [of x y] lx ly by auto
  have w: "wr out ptr e = done @ e @ j2" if "length e = isz" for e
    by (subst o) (rule wr_at, simp_all add: assms that)
  have w': "wr out ptr (if x \<le> y then x else y) = done @ (if x \<le> y then x else y) @ j2"
    by (rule w) (simp add: lx ly)
  note unf = merge_loop.simps [of isz d a a_max b b_max out ptr]
  show ?thesis
    unfolding unf Let_def rx ry le ge
    using \<open>0 < isz\<close> ia ib io
    by (simp add: rx ry w' if_distrib [of "\<lambda>z. rd d z isz"] del: memcmp.simps cong: if_cong)
qed


lemma merge_distinct_Nil2 [simp]: "merge_distinct xs [] = xs"
  by (cases xs) simp_all

lemma merge_rest:
  assumes "0 < isz"
    and lA: "\<forall>r\<in>set As. length r = isz" and lB: "\<forall>r\<in>set Bs. length r = isz"
    and dA: "d = pA @ concat As @ qA" and pA: "length pA = a1" and am: "a_max = a1 + length As * isz"
    and dB: "d = pB @ concat Bs @ qB" and pB: "length pB = b1" and bm: "b_max = b1 + length Bs * isz"
    and o: "out1 = done1 @ junk1" and p1: "length done1 = ptr1"
    and j: "(length As + length Bs) * isz \<le> length junk1"
    and IH: "As \<noteq> [] \<Longrightarrow> Bs \<noteq> [] \<Longrightarrow>
        \<exists>junk'. merge_loop isz d a1 a_max b1 b_max out1 ptr1
            = Inr (done1 @ concat (merge_distinct As Bs) @ junk',
                   ptr1 + length (merge_distinct As Bs) * isz)
          \<and> length (concat (merge_distinct As Bs) @ junk') = length junk1"
  shows "\<exists>junk'.
     (if a1 = a_max \<or> b1 = b_max then
        (if a1 \<noteq> a_max then
           (if a_max < a1 \<or> \<not> (inb d a1 (a_max - a1) \<and> inb out1 ptr1 (a_max - a1))
            then Inl Undefined
            else Inr (wr out1 ptr1 (rd d a1 (a_max - a1)), ptr1 + (a_max - a1)))
         else if b1 \<noteq> b_max then
           (if b_max < b1 \<or> \<not> (inb d b1 (b_max - b1) \<and> inb out1 ptr1 (b_max - b1))
            then Inl Undefined
            else Inr (wr out1 ptr1 (rd d b1 (b_max - b1)), ptr1 + (b_max - b1)))
         else Inr (out1, ptr1))
      else merge_loop isz d a1 a_max b1 b_max out1 ptr1)
     = Inr (done1 @ concat (merge_distinct As Bs) @ junk',
            ptr1 + length (merge_distinct As Bs) * isz)
     \<and> length (concat (merge_distinct As Bs) @ junk') = length junk1"
proof -
  have cA: "length (concat As) = length As * isz" by (rule length_concat_recs [OF lA])
  have cB: "length (concat Bs) = length Bs * isz" by (rule length_concat_recs [OF lB])
  have eA: "(a1 = a_max) = (As = [])" using am \<open>0 < isz\<close> by simp
  have eB: "(b1 = b_max) = (Bs = [])" using bm \<open>0 < isz\<close> by simp
  have dfA: "a_max - a1 = length (concat As)" using am cA by simp
  have dfB: "b_max - b1 = length (concat Bs)" using bm cB by simp
  have leA: "\<not> a_max < a1" using am by simp
  have leB: "\<not> b_max < b1" using bm by simp
  have rdA: "rd d a1 (a_max - a1) = concat As"
    unfolding dfA by (subst dA) (rule rd_at [OF pA [symmetric] refl])
  have rdB: "rd d b1 (b_max - b1) = concat Bs"
    unfolding dfB by (subst dB) (rule rd_at [OF pB [symmetric] refl])
  have inA: "inb d a1 (a_max - a1)"
    unfolding dfA by (subst dA) (rule inb_at [OF pA [symmetric] refl])
  have inB: "inb d b1 (b_max - b1)"
    unfolding dfB by (subst dB) (rule inb_at [OF pB [symmetric] refl])
  have wrj: "wr out1 ptr1 c = done1 @ c @ drop (length c) junk1 \<and> inb out1 ptr1 (length c)"
    if "length c \<le> length junk1" for c
  proof -
    have "out1 = done1 @ take (length c) junk1 @ drop (length c) junk1" by (simp add: o)
    moreover have "length c = length (take (length c) junk1)" using that by simp
    ultimately show ?thesis
      using wr_at [OF p1 [symmetric], of c "take (length c) junk1" "drop (length c) junk1"]
        inb_at [OF p1 [symmetric], of "length c" "take (length c) junk1" "drop (length c) junk1"]
      by simp
  qed
  show ?thesis
  proof (cases "As = []")
    case A: True
    show ?thesis
    proof (cases "Bs = []")
      case True
      with A show ?thesis by (intro exI [of _ junk1]) (simp add: eA eB o)
    next
      case False
      have le: "length (concat Bs) \<le> length junk1" using j cB A by simp
      from wrj [OF le] False A le show ?thesis
        by (intro exI [of _ "drop (length (concat Bs)) junk1"])
           (simp add: eA eB leB inB [unfolded dfB cB] rdB [unfolded dfB cB] dfB cB)
    qed
  next
    case A: False
    show ?thesis
    proof (cases "Bs = []")
      case True
      have le: "length (concat As) \<le> length junk1" using j cA True by simp
      from wrj [OF le] True A le show ?thesis
        by (intro exI [of _ "drop (length (concat As)) junk1"])
           (simp add: eA eB leA inA [unfolded dfA cA] rdA [unfolded dfA cA] dfA cA)
    next
      case False
      with A IH show ?thesis by (simp add: eA eB)
    qed
  qed
qed


lemma merge_loop_spec:
  assumes "0 < isz"
    and "\<forall>r\<in>set As. length r = isz" and "\<forall>r\<in>set Bs. length r = isz"
    and "As \<noteq> []" and "Bs \<noteq> []"
    and "d = pA @ concat As @ qA" and "length pA = a" and "a_max = a + length As * isz"
    and "d = pB @ concat Bs @ qB" and "length pB = b" and "b_max = b + length Bs * isz"
    and "out = done @ junk" and "length done = ptr"
    and "(length As + length Bs) * isz \<le> length junk"
  shows "\<exists>junk'. merge_loop isz d a a_max b b_max out ptr
            = Inr (done @ concat (merge_distinct As Bs) @ junk',
                   ptr + length (merge_distinct As Bs) * isz)
          \<and> length (concat (merge_distinct As Bs) @ junk') = length junk"
  using assms(2-)
proof (induction As Bs arbitrary: pA a pB b out "done" junk ptr rule: merge_distinct.induct)
  case (1 ys)
  then show ?case by simp
next
  case (2 x xs)
  then show ?case by simp
next
  case (3 x xs y ys)
  let ?j1 = "take isz junk" and ?j2 = "drop isz junk"
  have lx: "length x = isz" and ly: "length y = isz" using "3.prems"(1,2) by simp_all
  have lxs: "\<forall>r\<in>set xs. length r = isz" and lys: "\<forall>r\<in>set ys. length r = isz"
    using "3.prems"(1,2) by simp_all
  have jl: "isz \<le> length junk"
  proof -
    have "isz \<le> (length (x # xs) + length (y # ys)) * isz" by simp
    then show ?thesis using "3.prems"(13) by (rule order_trans)
  qed
  then have lj1: "length ?j1 = isz" by simp
  have dA: "d = pA @ x @ (concat xs @ qA)" using "3.prems"(5) by simp
  have dB: "d = pB @ y @ (concat ys @ qB)" using "3.prems"(8) by simp
  have o: "out = done @ ?j1 @ ?j2" using "3.prems"(11) by simp
  note step = merge_step [OF \<open>0 < isz\<close> dA "3.prems"(6) lx dB "3.prems"(9) ly o "3.prems"(12) lj1,
      of a_max b_max, unfolded Let_def]
  have dA': "d = (pA @ x) @ concat xs @ qA" using dA by simp
  have dB': "d = (pB @ y) @ concat ys @ qB" using dB by simp
  have pA': "length (pA @ x) = a + isz" using "3.prems"(6) lx by simp
  have pB': "length (pB @ y) = b + isz" using "3.prems"(9) ly by simp
  have am': "a_max = (a + isz) + length xs * isz" using "3.prems"(7) by simp
  have bm': "b_max = (b + isz) + length ys * isz" using "3.prems"(10) by simp
  have p': "length (done @ e) = ptr + isz" if "length e = isz" for e
    using "3.prems"(12) that by simp
  have lj2: "length ?j2 = length junk - isz" by simp
  have "x = y \<or> (x \<noteq> y \<and> x < y) \<or> (x \<noteq> y \<and> \<not> x < y)" by blast
  then show ?case
  proof (elim disjE)
    assume eq: "x = y"
    have j: "(length xs + length ys) * isz \<le> length ?j2"
      using "3.prems"(13) by (simp add: add_mult_distrib)
    have o1: "done @ x @ ?j2 = (done @ x) @ ?j2" by simp
    have "\<exists>junk'. merge_loop isz d (a + isz) a_max (b + isz) b_max (done @ x @ ?j2) (ptr + isz)
            = Inr ((done @ x) @ concat (merge_distinct xs ys) @ junk',
                   (ptr + isz) + length (merge_distinct xs ys) * isz)
          \<and> length (concat (merge_distinct xs ys) @ junk') = length ?j2"
      if "xs \<noteq> []" "ys \<noteq> []"
      by (rule "3.IH"(1) [OF eq lxs lys that dA' pA' am' dB' pB' bm' o1 p' [OF lx] j])
    from merge_rest [OF \<open>0 < isz\<close> lxs lys dA' pA' am' dB' pB' bm' o1 p' [OF lx] j this]
    obtain junk' where
      "(if a + isz = a_max \<or> b + isz = b_max then
          (if a + isz \<noteq> a_max then
             (if a_max < a + isz \<or> \<not> (inb d (a + isz) (a_max - (a + isz)) \<and> inb (done @ x @ ?j2) (ptr + isz) (a_max - (a + isz)))
              then Inl Undefined
              else Inr (wr (done @ x @ ?j2) (ptr + isz) (rd d (a + isz) (a_max - (a + isz))), ptr + isz + (a_max - (a + isz))))
           else if b + isz \<noteq> b_max then
             (if b_max < b + isz \<or> \<not> (inb d (b + isz) (b_max - (b + isz)) \<and> inb (done @ x @ ?j2) (ptr + isz) (b_max - (b + isz)))
              then Inl Undefined
              else Inr (wr (done @ x @ ?j2) (ptr + isz) (rd d (b + isz) (b_max - (b + isz))), ptr + isz + (b_max - (b + isz))))
           else Inr (done @ x @ ?j2, ptr + isz))
        else merge_loop isz d (a + isz) a_max (b + isz) b_max (done @ x @ ?j2) (ptr + isz))
       = Inr ((done @ x) @ concat (merge_distinct xs ys) @ junk',
              ptr + isz + length (merge_distinct xs ys) * isz)"
      "length (concat (merge_distinct xs ys) @ junk') = length ?j2"
      by blast
    note obt = this
    have le: "x \<le> y" and le': "y \<le> x" using eq by simp_all
    show ?thesis
      unfolding step [unfolded if_P [OF le] if_P [OF le']]
      by (intro exI [of _ junk']) (simp only: obt(1), use obt(2) eq jl lx in simp)
  next
    assume "x \<noteq> y \<and> x < y"
    then have lt: "x \<noteq> y" "x < y" by simp_all
    have j: "(length xs + length (y # ys)) * isz \<le> length ?j2"
      using "3.prems"(13) by (simp add: add_mult_distrib)
    have o1: "done @ x @ ?j2 = (done @ x) @ ?j2" by simp
    have nle: "\<not> y \<le> x" using lt by simp
    have le: "x \<le> y" using lt by simp
    have bm0: "b_max = b + length (y # ys) * isz" using "3.prems"(10) .
    have "\<exists>junk'. merge_loop isz d (a + isz) a_max b b_max (done @ x @ ?j2) (ptr + isz)
            = Inr ((done @ x) @ concat (merge_distinct xs (y # ys)) @ junk',
                   (ptr + isz) + length (merge_distinct xs (y # ys)) * isz)
          \<and> length (concat (merge_distinct xs (y # ys)) @ junk') = length ?j2"
      if "xs \<noteq> []" "y # ys \<noteq> []"
      by (rule "3.IH"(2) [OF lt lxs "3.prems"(2) that dA' pA' am' "3.prems"(8,9) bm0 o1 p' [OF lx] j])
    from merge_rest [OF \<open>0 < isz\<close> lxs "3.prems"(2) dA' pA' am' "3.prems"(8,9) bm0 o1 p' [OF lx] j this]
    obtain junk' where
      "(if a + isz = a_max \<or> b = b_max then
          (if a + isz \<noteq> a_max then
             (if a_max < a + isz \<or> \<not> (inb d (a + isz) (a_max - (a + isz)) \<and> inb (done @ x @ ?j2) (ptr + isz) (a_max - (a + isz)))
              then Inl Undefined
              else Inr (wr (done @ x @ ?j2) (ptr + isz) (rd d (a + isz) (a_max - (a + isz))), ptr + isz + (a_max - (a + isz))))
           else if b \<noteq> b_max then
             (if b_max < b \<or> \<not> (inb d b (b_max - b) \<and> inb (done @ x @ ?j2) (ptr + isz) (b_max - b))
              then Inl Undefined
              else Inr (wr (done @ x @ ?j2) (ptr + isz) (rd d b (b_max - b)), ptr + isz + (b_max - b)))
           else Inr (done @ x @ ?j2, ptr + isz))
        else merge_loop isz d (a + isz) a_max b b_max (done @ x @ ?j2) (ptr + isz))
       = Inr ((done @ x) @ concat (merge_distinct xs (y # ys)) @ junk',
              ptr + isz + length (merge_distinct xs (y # ys)) * isz)"
      "length (concat (merge_distinct xs (y # ys)) @ junk') = length ?j2"
      by blast
    note obt = this
    show ?thesis
      unfolding step [unfolded if_P [OF le] if_not_P [OF nle]]
      by (intro exI [of _ junk']) (simp only: obt(1), use obt(2) lt jl lx in simp)
  next
    assume "x \<noteq> y \<and> \<not> x < y"
    then have gt: "x \<noteq> y" "\<not> x < y" by simp_all
    have j: "(length (x # xs) + length ys) * isz \<le> length ?j2"
      using "3.prems"(13) by (simp add: add_mult_distrib)
    have o1: "done @ y @ ?j2 = (done @ y) @ ?j2" by simp
    have nle: "\<not> x \<le> y" using gt by simp
    have le: "y \<le> x" using gt by simp
    have am0: "a_max = a + length (x # xs) * isz" using "3.prems"(7) .
    have "\<exists>junk'. merge_loop isz d a a_max (b + isz) b_max (done @ y @ ?j2) (ptr + isz)
            = Inr ((done @ y) @ concat (merge_distinct (x # xs) ys) @ junk',
                   (ptr + isz) + length (merge_distinct (x # xs) ys) * isz)
          \<and> length (concat (merge_distinct (x # xs) ys) @ junk') = length ?j2"
      if "x # xs \<noteq> []" "ys \<noteq> []"
      by (rule "3.IH"(3) [OF gt "3.prems"(1) lys that "3.prems"(5,6) am0 dB' pB' bm' o1 p' [OF ly] j])
    from merge_rest [OF \<open>0 < isz\<close> "3.prems"(1) lys "3.prems"(5,6) am0 dB' pB' bm' o1 p' [OF ly] j this]
    obtain junk' where
      "(if a = a_max \<or> b + isz = b_max then
          (if a \<noteq> a_max then
             (if a_max < a \<or> \<not> (inb d a (a_max - a) \<and> inb (done @ y @ ?j2) (ptr + isz) (a_max - a))
              then Inl Undefined
              else Inr (wr (done @ y @ ?j2) (ptr + isz) (rd d a (a_max - a)), ptr + isz + (a_max - a)))
           else if b + isz \<noteq> b_max then
             (if b_max < b + isz \<or> \<not> (inb d (b + isz) (b_max - (b + isz)) \<and> inb (done @ y @ ?j2) (ptr + isz) (b_max - (b + isz)))
              then Inl Undefined
              else Inr (wr (done @ y @ ?j2) (ptr + isz) (rd d (b + isz) (b_max - (b + isz))), ptr + isz + (b_max - (b + isz))))
           else Inr (done @ y @ ?j2, ptr + isz))
        else merge_loop isz d a a_max (b + isz) b_max (done @ y @ ?j2) (ptr + isz))
       = Inr ((done @ y) @ concat (merge_distinct (x # xs) ys) @ junk',
              ptr + isz + length (merge_distinct (x # xs) ys) * isz)"
      "length (concat (merge_distinct (x # xs) ys) @ junk') = length ?j2"
      by blast
    note obt = this
    show ?thesis
      unfolding step [unfolded if_not_P [OF nle] if_P [OF le]]
      by (intro exI [of _ junk']) (simp only: obt(1), use obt(2) gt jl ly in simp)
  qed
qed

lemma set_merge_distinct: "set (merge_distinct xs ys) = set xs \<union> set ys"
  by (induction xs ys rule: merge_distinct.induct) auto

lemma length_merge_distinct: "length (merge_distinct xs ys) \<le> length xs + length ys"
  by (induction xs ys rule: merge_distinct.induct) auto

lemma sorted_merge_distinct:
  "sorted_wrt (<) xs \<Longrightarrow> sorted_wrt (<) ys \<Longrightarrow> sorted_wrt (<) (merge_distinct xs ys)"
  by (induction xs ys rule: merge_distinct.induct) (auto simp: set_merge_distinct)

lemma merge_distinct_sorted_list:
  assumes "sorted_wrt (<) xs" and "sorted_wrt (<) ys"
  shows "merge_distinct xs ys = sorted_list_of_set (set xs \<union> set ys)"
proof -
  have "sorted_wrt (<) (merge_distinct xs ys)" by (rule sorted_merge_distinct [OF assms])
  then have "sorted (merge_distinct xs ys)" "distinct (merge_distinct xs ys)"
    by (simp_all add: strict_sorted_iff)
  then show ?thesis
    by (intro sorted_distinct_set_unique) (simp_all add: set_merge_distinct)
qed

lemma distinct_remdups_adj_sorted: "sorted xs \<Longrightarrow> distinct (remdups_adj xs)"
proof (induction xs rule: remdups_adj.induct)
  case (3 x y xs)
  show ?case
  proof (cases "x = y")
    case True
    with 3 show ?thesis by simp
  next
    case False
    from "3.prems" have "\<forall>z\<in>set (y # xs). x \<le> z" "\<forall>z\<in>set xs. y \<le> z" by auto
    with False have "x \<notin> set (y # xs)" by auto
    with False 3 show ?thesis by simp
  qed
qed simp_all

lemma remdups_adj_sort: "remdups_adj (sort xs) = sorted_list_of_set (set xs)"
proof -
  have "sorted (remdups_adj (sort xs))" by (simp add: sorted_remdups_adj)
  moreover have "distinct (remdups_adj (sort xs))" by (simp add: distinct_remdups_adj_sorted)
  ultimately show ?thesis
    by (intro sorted_distinct_set_unique) simp_all
qed

lemma strict_sorted_list_of_set: "sorted_wrt (<) (sorted_list_of_set A)"
  by (simp add: strict_sorted_iff)

lemma sort_region_spec:
  assumes "\<forall>r\<in>set P. length r = isz" and "length pre = base" and "n = length P"
  shows "sort_region isz base n (pre @ concat P @ post) = pre @ concat (sort P) @ post"
proof -
  have lc: "length (concat P) = n * isz" using assms by (simp add: length_concat_recs)
  have "rd (pre @ concat P @ post) base (n * isz) = concat P"
    by (rule rd_at) (simp_all add: assms lc)
  moreover have "chunks isz n (concat P) = P"
    using chunks_concat [OF assms(1), of "[]"] assms(3) by simp
  moreover have "length (concat (sort P)) = length (concat P)"
  proof -
    have "\<forall>r\<in>set (sort P). length r = isz" using assms(1) by simp
    from length_concat_recs [OF this] length_concat_recs [OF assms(1)] show ?thesis by simp
  qed
  ultimately show ?thesis
    using assms by (simp add: sort_region_def qsort_arg_sort wr_at)
qed

lemma recs_split:
  assumes "ns \<le> na" and "na * isz \<le> length d"
  shows "chunks isz na d = chunks isz ns d @ chunks isz (na - ns) (drop (ns * isz) d)"
    and "d = concat (chunks isz ns d) @ concat (chunks isz (na - ns) (drop (ns * isz) d))
             @ drop (na * isz) d"
    and "\<forall>r\<in>set (chunks isz ns d). length r = isz"
    and "\<forall>r\<in>set (chunks isz (na - ns) (drop (ns * isz) d)). length r = isz"
proof -
  have le: "ns * isz \<le> na * isz" using assms(1) by (rule mult_le_mono1)
  show a: "chunks isz na d = chunks isz ns d @ chunks isz (na - ns) (drop (ns * isz) d)"
    using chunks_add [of isz ns "na - ns" d] assms(1) by simp
  have "d = concat (chunks isz na d) @ drop (na * isz) d"
    by (rule data_split [OF assms(2)])
  then show "d = concat (chunks isz ns d) @ concat (chunks isz (na - ns) (drop (ns * isz) d))
             @ drop (na * isz) d"
    unfolding a by simp
  have "ns * isz \<le> length d" using le assms(2) by (rule order_trans)
  from chunks_lengths [OF this] show "\<forall>r\<in>set (chunks isz ns d). length r = isz"
    by blast
  have "(na - ns) * isz \<le> length (drop (ns * isz) d)"
    using assms by (simp add: diff_mult_distrib)
  from chunks_lengths [OF this]
  show "\<forall>r\<in>set (chunks isz (na - ns) (drop (ns * isz) d)). length r = isz"
    by blast
qed

lemma wf_setD:
  assumes "wf_set e"
  shows "0 < item_size e" "nsorted e \<le> nall e" "nall e * item_size e \<le> nbytes e"
    "nbytes e \<le> length (data e)" "nbytes e < 2 ^ 32" "sorted_wrt (<) (sorted_zone e)"
    "nall e * item_size e \<le> length (data e)" "nall e * item_size e < 2 ^ 32"
    "nall e < 2 ^ 32" "nsorted e * item_size e < 2 ^ 32" "nsorted e * item_size e \<le> nall e * item_size e"
proof -
  show a: "0 < item_size e" "nsorted e \<le> nall e" "nall e * item_size e \<le> nbytes e"
    "nbytes e \<le> length (data e)" "nbytes e < 2 ^ 32" "sorted_wrt (<) (sorted_zone e)"
    using assms by (simp_all add: wf_set_def)
  show "nall e * item_size e \<le> length (data e)" using a(3,4) by (rule order_trans)
  show b: "nall e * item_size e < 2 ^ 32" using a(3,5) by (rule le_less_trans)
  have "nall e \<le> nall e * item_size e" using a(1) by simp
  then show "nall e < 2 ^ 32" using b by (rule le_less_trans)
  show c: "nsorted e * item_size e \<le> nall e * item_size e" using a(2) by (rule mult_le_mono1)
  then show "nsorted e * item_size e < 2 ^ 32" using b by (rule le_less_trans)
qed


lemma compact_pending_spec:
  assumes wf: "wf_set e" and lt: "nsorted e < nall e"
  shows "\<exists>e'. compact_pending h e = Inr e'
    \<and> recs e' = sorted_list_of_set (set (recs e))
    \<and> nsorted e' = nall e' \<and> nall e' \<le> nall e \<and> nbytes e \<le> length (data e')
    \<and> e'\<lparr>nsorted := 0, nall := 0, data := []\<rparr> = e\<lparr>nsorted := 0, nall := 0, data := []\<rparr>"
proof -
  let ?isz = "item_size e" and ?ns = "nsorted e" and ?na = "nall e" and ?d = "data e"
  let ?n = "?na - ?ns"
  let ?S = "chunks ?isz ?ns ?d"
  let ?P = "chunks ?isz ?n (drop (?ns * ?isz) ?d)"
  let ?T = "drop (?na * ?isz) ?d"
  let ?K = "sorted_list_of_set (set ?P)"
  note w = wf_setD [OF wf]
  note sp = recs_split [OF w(2) w(7)]
  have B: "u32 (?ns * ?isz) = ?ns * ?isz" by (rule u32_id [OF w(10)])
  have N: "u32_sub ?na ?ns = ?n" by (rule u32_sub_id [OF w(2) w(9)])
  have lS: "length (concat ?S) = ?ns * ?isz" using length_concat_recs [OF sp(3)] by simp
  have lP: "length (concat ?P) = ?n * ?isz" using length_concat_recs [OF sp(4)] by simp
  have n_isz: "?n * ?isz < 2 ^ 32"
  proof -
    have "?n * ?isz \<le> ?na * ?isz" by (rule mult_le_mono1) simp
    then show ?thesis using w(8) by (rule le_less_trans)
  qed
  have INB: "inb ?d (?ns * ?isz) (?n * ?isz)"
    using w(7) lt by (simp add: inb_def diff_mult_distrib)
  have SR: "sort_region ?isz (?ns * ?isz) ?n ?d = concat ?S @ concat (sort ?P) @ ?T"
    using sort_region_spec [OF sp(4) lS, of ?n ?T] sp(2) by simp
  have Pne: "?P \<noteq> []" using lt by (cases ?n) simp_all
  have "length (sort ?P) \<noteq> 0" using lt by simp
  then have "sort ?P \<noteq> []" by (simp only: length_0_conv not_False_eq_True)
  then obtain p0 ps where sP: "sort ?P = p0 # ps" by (cases "sort ?P") auto
  have lsp: "\<forall>r\<in>set (sort ?P). length r = ?isz" using sp(4) by simp
  have l0: "\<forall>r\<in>set [p0]. length r = ?isz" and l1: "\<forall>r\<in>set ps. length r = ?isz"
    using lsp unfolding sP by simp_all
  have len_sp: "?n = length [p0] + 0 + length ps"
  proof -
    have "length (sort ?P) = ?n" by simp
    then show ?thesis unfolding sP by simp
  qed
  have Keq: "butlast [p0] @ remdups_adj (last [p0] # ps) = ?K"
    using remdups_adj_sort [of ?P] unfolding sP by simp
  from dedup_loop_spec [OF w(1) l0 l1 _ lS _ len_sp n_isz, of "[]" ?T] Keq
  obtain mid' where
    DL: "dedup_loop ?isz (?ns * ?isz) ?n 1 (concat ?S @ concat (sort ?P) @ ?T) (?ns * ?isz) 1
          = Inr (concat ?S @ concat ?K @ mid' @ ?T, length ?K)"
    and lmid: "length (concat ?K @ mid') = ?n * ?isz"
    unfolding sP by auto
  have lK: "\<forall>r\<in>set ?K. length r = ?isz" using sp(4) by simp
  have cK: "length (concat ?K) = length ?K * ?isz" by (rule length_concat_recs [OF lK])
  have K1: "0 < length ?K" using Pne by (simp add: card_gt_0_iff)
  have Kn: "length ?K \<le> ?n"
    using card_length [of ?P] by simp
  have nall1: "u32 (?ns + length ?K) = ?ns + length ?K"
  proof -
    have "?ns + length ?K \<le> ?na" using Kn lt by simp
    then have "?ns + length ?K < 2 ^ 32" using w(9) by (rule le_less_trans)
    then show ?thesis by (rule u32_id)
  qed
  have set_recs: "set (recs e) = set ?S \<union> set ?P"
    unfolding recs_def sp(1) by simp
  have len_d1: "length (concat ?S @ concat ?K @ mid' @ ?T) = length ?d"
  proof -
    have "length (concat ?S @ concat ?K @ mid' @ ?T) = ?ns * ?isz + ?n * ?isz + length ?T"
      using lS lmid by simp
    also have "\<dots> = length (concat ?S @ concat ?P @ ?T)" using lS lP by simp
    also have "\<dots> = length ?d" using sp(2) by simp
    finally show ?thesis .
  qed
  have INB': "(\<not> inb ?d (?ns * ?isz) (?n * ?isz)) = False" using INB by simp
  note unf = compact_pending_def [of h e, unfolded Let_def B N INB' if_False
      SR DL sum.case prod.case nall1]
  show ?thesis
  proof (cases "?ns = 0")
    case True
    have S0: "?S = []" using True by simp
    have r: "chunks ?isz (length ?K) (concat ?K @ mid' @ ?T) = ?K"
      by (rule chunks_concat [OF lK])
    show ?thesis
      unfolding unf using True Kn w(4) len_d1 r set_recs S0
      by (simp add: recs_def)
  next
    case False
    let ?M = "merge_distinct ?S ?K"
    have Sne: "?S \<noteq> []" using False by (cases ?ns) simp_all
    have Kne: "?K \<noteq> []" using K1 by auto
    have jl: "(length ?S + length ?K) * ?isz \<le> length (palloc h (nbytes e))"
    proof -
      have "?ns + length ?K \<le> ?na" using Kn lt by simp
      then have "(?ns + length ?K) * ?isz \<le> ?na * ?isz" by (rule mult_le_mono1)
      then have "(?ns + length ?K) * ?isz \<le> nbytes e" using w(3) by (rule order_trans)
      moreover have "length (palloc h (nbytes e)) = nbytes e" by (simp add: palloc_def)
      ultimately show ?thesis by simp
    qed
    have d1A: "concat ?S @ concat ?K @ mid' @ ?T = [] @ concat ?S @ (concat ?K @ mid' @ ?T)" by simp
    have d1B: "concat ?S @ concat ?K @ mid' @ ?T = concat ?S @ concat ?K @ (mid' @ ?T)" by simp
    have nall1_isz: "u32 ((?ns + length ?K) * ?isz) = (?ns + length ?K) * ?isz"
    proof -
      have "?ns + length ?K \<le> ?na" using Kn lt by simp
      then have "(?ns + length ?K) * ?isz \<le> ?na * ?isz" by (rule mult_le_mono1)
      then have "(?ns + length ?K) * ?isz < 2 ^ 32" using w(8) by (rule le_less_trans)
      then show ?thesis by (rule u32_id)
    qed
    have amax: "?ns * ?isz = 0 + length ?S * ?isz" by simp
    have bmax: "(?ns + length ?K) * ?isz = ?ns * ?isz + length ?K * ?isz"
      by (simp add: add_mult_distrib)
    have o: "palloc h (nbytes e) = [] @ palloc h (nbytes e)" by simp
    have p0: "length ([]::byte list) = 0" by simp
    from merge_loop_spec [OF w(1) sp(3) lK Sne Kne d1A p0 amax d1B lS bmax o p0 jl]
    obtain junk' where
      MRG: "merge_loop ?isz (concat ?S @ concat ?K @ mid' @ ?T) 0 (?ns * ?isz) (?ns * ?isz)
             ((?ns + length ?K) * ?isz) (palloc h (nbytes e)) 0
           = Inr ([] @ concat ?M @ junk', 0 + length ?M * ?isz)"
      and lj0: "length (concat ?M @ junk') = length (palloc h (nbytes e))"
      by blast
    have lj: "length (concat ?M @ junk') = nbytes e" using lj0 by (simp add: palloc_def)
    have Meq: "?M = sorted_list_of_set (set (recs e))"
      using merge_distinct_sorted_list [OF w(6) [unfolded sorted_zone_def] strict_sorted_list_of_set, of "set ?P"]
      unfolding set_recs by simp
    have lM: "\<forall>r\<in>set ?M. length r = ?isz"
      unfolding set_merge_distinct using sp(3) lK by blast
    have r: "chunks ?isz (length ?M) (concat ?M @ junk') = ?M"
      by (rule chunks_concat [OF lM])
    have Mle: "length ?M \<le> ?ns + length ?K"
      using length_merge_distinct [of ?S ?K] by simp
    then have Mle': "length ?M * ?isz \<le> (?ns + length ?K) * ?isz" by (rule mult_le_mono1)
    have Mna: "length ?M \<le> ?na" using Mle Kn lt by simp
    have res: "compact_pending h e
        = Inr (e\<lparr>nall := length ?M, nsorted := length ?M, data := concat ?M @ junk'\<rparr>)"
    proof -
      have c1: "(if ?ns = 0 then ?ns + length ?K else ?ns) = ?ns" using False by simp
      have c2: "?ns < ?ns + length ?K" using K1 by simp
      have c3: "(0 + length ?M * ?isz) div ?isz = length ?M" using w(1) by simp
      have c4: "0 + length ?M * ?isz \<le> (?ns + length ?K) * ?isz" using Mle' by simp
      show ?thesis
        unfolding unf c1 B nall1_isz MRG sum.case prod.case if_P [OF c2] c3
        using c4 by (simp add: Assert_def)
    qed
    have "recs (e\<lparr>nall := length ?M, nsorted := length ?M, data := concat ?M @ junk'\<rparr>) = ?M"
      using r by (simp add: recs_def)
    with Meq Mna lj show ?thesis
      unfolding res by (intro exI [of _ "e\<lparr>nall := length ?M, nsorted := length ?M, data := concat ?M @ junk'\<rparr>"]) simp
    
  qed
qed

lemma sorted_list_of_set_recs_id:
  "sorted_wrt (<) xs \<Longrightarrow> sorted_list_of_set (set xs) = xs"
  by (simp add: strict_sorted_iff sorted_list_of_set.idem_if_sorted_distinct)

lemma same_header_fields:
  assumes "(e'::element_set)\<lparr>nsorted := 0, nall := 0, data := []\<rparr>
      = (e::element_set)\<lparr>nsorted := 0, nall := 0, data := []\<rparr>"
  shows "item_size e' = item_size e" "nbytes e' = nbytes e" "typalign e' = typalign e"
    "pad e' = pad e" "aggctx e' = aggctx e"
proof -
  let ?f = "\<lambda>x::element_set. x\<lparr>nsorted := 0, nall := 0, data := []\<rparr>"
  have "item_size (?f e') = item_size (?f e)" "nbytes (?f e') = nbytes (?f e)"
    "typalign (?f e') = typalign (?f e)" "pad (?f e') = pad (?f e)" "aggctx (?f e') = aggctx (?f e)"
    using assms by simp_all
  then show "item_size e' = item_size e" "nbytes e' = nbytes e" "typalign e' = typalign e"
    "pad e' = pad e" "aggctx e' = aggctx e"
    by simp_all
qed

lemma compact_pending_wf:
  assumes wf: "wf_set e" and lt: "nsorted e < nall e"
  shows "\<exists>e'. compact_pending h e = Inr e' \<and> wf_set e'
    \<and> recs e' = sorted_list_of_set (set (recs e))
    \<and> nsorted e' = nall e' \<and> nall e' \<le> nall e
    \<and> e'\<lparr>nsorted := 0, nall := 0, data := []\<rparr> = e\<lparr>nsorted := 0, nall := 0, data := []\<rparr>"
proof -
  from compact_pending_spec [OF wf lt, of h] obtain e' where
    r: "compact_pending h e = Inr e'" and
    recs: "recs e' = sorted_list_of_set (set (recs e))" and
    cnt: "nsorted e' = nall e'" "nall e' \<le> nall e" and
    len: "nbytes e \<le> length (data e')" and
    same: "e'\<lparr>nsorted := 0, nall := 0, data := []\<rparr> = e\<lparr>nsorted := 0, nall := 0, data := []\<rparr>"
    by blast
  note w = wf_setD [OF wf]
  note h = same_header_fields [OF same]
  have "nall e' * item_size e \<le> nall e * item_size e" using cnt(2) by (rule mult_le_mono1)
  then have "nall e' * item_size e \<le> nbytes e" using w(3) by (rule order_trans)
  moreover have "sorted_wrt (<) (sorted_zone e')"
    using recs cnt(1) by (simp add: sorted_zone_def recs_def strict_sorted_list_of_set)
  ultimately have "wf_set e'"
    using w(1,5) cnt(1) len h(1,2) by (simp add: wf_set_def)
  with r recs cnt same show ?thesis by blast
qed

lemma length_repalloc: "length (repalloc h d n) = n"
  by (simp add: repalloc_def palloc_def)

lemma chunks_repalloc:
  assumes "k * isz \<le> n" and "k * isz \<le> length d"
  shows "chunks isz k (repalloc h d n) = chunks isz k d"
proof -
  have "k * isz \<le> length (take n d)" using assms by simp
  then have "chunks isz k (take n d @ drop (length d) (palloc h n)) = chunks isz k (take n d)"
    by (rule chunks_append_left)
  also have "\<dots> = chunks isz k d" by (rule chunks_take [OF assms(1)])
  finally show ?thesis by (simp add: repalloc_def)
qed


lemma grow_to:
  assumes wf: "wf_set e" and le: "nbytes e \<le> nb" and lt: "nb < 2 ^ 32"
  shows "wf_set (e\<lparr>nbytes := nb, data := repalloc h (data e) nb\<rparr>)"
    and "recs (e\<lparr>nbytes := nb, data := repalloc h (data e) nb\<rparr>) = recs e"
proof -
  note w = wf_setD [OF wf]
  have a: "nall e * item_size e \<le> nb" using w(3) le by (rule order_trans)
  have b: "nsorted e * item_size e \<le> nb" using w(11) a by (rule order_trans)
  have c: "nsorted e * item_size e \<le> length (data e)" using w(11) w(7) by (rule order_trans)
  show "recs (e\<lparr>nbytes := nb, data := repalloc h (data e) nb\<rparr>) = recs e"
    using chunks_repalloc [OF a w(7)] by (simp add: recs_def)
  show "wf_set (e\<lparr>nbytes := nb, data := repalloc h (data e) nb\<rparr>)"
    using w(1,2,6) a lt chunks_repalloc [OF b c, of h]
    by (simp add: wf_set_def sorted_zone_def length_repalloc)
qed

lemma room_without_growth:
  fixes n used isz :: nat
  assumes "isz \<le> 8" and "32 \<le> n" and "used = k * isz" and "used \<le> n"
    and "\<not> 5 * (n - used) < n"
  shows "isz * (k + 1) \<le> n"
proof -
  have f: "7 \<le> n - used" using assms(2,5) by arith
  have "isz \<le> n - used"
  proof (cases "isz = 8")
    case True
    have "n - used \<noteq> 7"
    proof
      assume e: "n - used = 7"
      then have "n \<le> 35" using assms(5) by arith
      moreover have "used = 8 * k" using assms(3) True by simp
      then have "n = 8 * k + 7" using e assms(4) by arith
      ultimately show False using assms(2) by arith
    qed
    with f True show ?thesis by arith
  next
    case False
    with assms(1) f show ?thesis by arith
  qed
  then have "used + isz \<le> n" using assms(4) by arith
  then show ?thesis using assms(3) by (simp add: mult.commute)
qed

lemma grow_set_spec:
  assumes wf: "wf_set e" and sz: "need_space \<longrightarrow> 2 * nbytes e < 2 ^ 32"
  shows "wf_set (grow_set h e need_space)"
    and "recs (grow_set h e need_space) = recs e"
    and "nsorted (grow_set h e need_space) = nsorted e"
    and "nall (grow_set h e need_space) = nall e"
    and "item_size (grow_set h e need_space) = item_size e"
    and "typalign (grow_set h e need_space) = typalign e"
    and "pad (grow_set h e need_space) = pad e"
    and "aggctx (grow_set h e need_space) = aggctx e"
    and "nbytes e \<le> nbytes (grow_set h e need_space)"
    and "nbytes (grow_set h e need_space) \<le> 2 * nbytes e"
    and "\<not> need_space \<Longrightarrow> grow_set h e need_space = e"
    and "nbytes (grow_set h e need_space) \<noteq> nbytes e \<Longrightarrow> 4 * nbytes e < 5 * (nall e * item_size e)"
    and "need_space \<Longrightarrow> item_size e \<le> 8 \<Longrightarrow> 32 \<le> nbytes e
          \<Longrightarrow> item_size e * (nall e + 1) \<le> nbytes (grow_set h e need_space)"
proof -
  note w = wf_setD [OF wf]
  let ?n = "nbytes e" and ?u = "nall e * item_size e"
  have free: "u32_sub ?n (u32 ?u) = ?n - ?u"
    using u32_id [OF w(8)] u32_sub_id [OF w(3) w(5)] by simp
  let ?nb = "if 5 * ?n < 4 * separate_threshold h then u32 (?n * 2) else u32 (5 * ?n div 4)"
  have g: "grow_set h e need_space =
      (if need_space \<and> 5 * (?n - ?u) < ?n then e\<lparr>nbytes := ?nb, data := repalloc h (data e) ?nb\<rparr> else e)"
    unfolding grow_set_def Let_def free by (rule refl)
  show "\<not> need_space \<Longrightarrow> grow_set h e need_space = e" by (subst g) simp
  show "nsorted (grow_set h e need_space) = nsorted e" "nall (grow_set h e need_space) = nall e"
    "item_size (grow_set h e need_space) = item_size e" "typalign (grow_set h e need_space) = typalign e"
    "pad (grow_set h e need_space) = pad e" "aggctx (grow_set h e need_space) = aggctx e"
    by (simp_all add: g)
  have nb: "?n \<le> ?nb \<and> ?nb \<le> 2 * ?n \<and> ?nb < 2 ^ 32 \<and> ?n + ?n div 4 \<le> ?nb" if "need_space"
  proof -
    have lt: "2 * ?n < 2 ^ 32" using sz that by simp
    then have "u32 (?n * 2) = 2 * ?n" by (simp add: u32_id mult.commute)
    moreover have "5 * ?n div 4 \<le> 2 * ?n" by arith
    then have "5 * ?n div 4 < 2 ^ 32" using lt by (rule le_less_trans)
    then have "u32 (5 * ?n div 4) = 5 * ?n div 4" by (rule u32_id)
    moreover have "?n \<le> 5 * ?n div 4" "5 * ?n div 4 \<le> 2 * ?n" "?n + ?n div 4 \<le> 5 * ?n div 4"
      by arith+
    ultimately show ?thesis using lt by auto
  qed
  show "wf_set (grow_set h e need_space)"
    using grow_to(1) [OF wf, of ?nb h] nb wf by (simp add: g)
  show "recs (grow_set h e need_space) = recs e"
    using grow_to(2) [OF wf, of ?nb h] nb by (simp add: g)
  show "nbytes e \<le> nbytes (grow_set h e need_space)" using nb by (simp add: g)
  show "nbytes (grow_set h e need_space) \<le> 2 * nbytes e" using nb by (simp add: g)
  show "4 * nbytes e < 5 * (nall e * item_size e)" if "nbytes (grow_set h e need_space) \<noteq> nbytes e"
  proof -
    from that have "5 * (?n - ?u) < ?n" unfolding g by (auto split: if_splits)
    then show ?thesis by arith
  qed
  show "item_size e * (nall e + 1) \<le> nbytes (grow_set h e need_space)"
    if ns: "need_space" and i8: "item_size e \<le> 8" and n32: "32 \<le> nbytes e"
  proof (cases "5 * (?n - ?u) < ?n")
    case True
    have "item_size e \<le> ?n div 4" using i8 n32 by arith
    then have "?u + item_size e \<le> ?n + ?n div 4" using w(3) by arith
    also have "\<dots> \<le> ?nb" using nb [OF ns] by simp
    finally have "?u + item_size e \<le> ?nb" .
    moreover have "nbytes (grow_set h e need_space) = ?nb" by (subst g) (simp add: True ns)
    ultimately show ?thesis by (simp add: mult.commute)
  next
    case False
    have "grow_set h e need_space = e" by (subst g) (simp add: False)
    with room_without_growth [OF i8 n32 refl w(3) False] show ?thesis by simp
  qed
qed

lemma Assert_True [simp]: "c \<Longrightarrow> Assert h c k = k"
  by (simp add: Assert_def)

lemma compact_set_pre:
  assumes wf: "wf_set e" and pos: "0 < nall e"
  shows "\<exists>e1. (if nsorted e < nall e then compact_pending h e else Inr e) = Inr e1 \<and> wf_set e1
    \<and> recs e1 = sorted_list_of_set (set (recs e))
    \<and> nsorted e1 = nall e1 \<and> nall e1 \<le> nall e \<and> 0 < nall e1
    \<and> item_size e1 = item_size e \<and> nbytes e1 = nbytes e \<and> typalign e1 = typalign e
    \<and> pad e1 = pad e \<and> aggctx e1 = aggctx e"
proof -
  have ne: "recs e \<noteq> []" using pos by (cases "nall e") (simp_all add: recs_def)
  have pos': "0 < nall e1" if "recs e1 = sorted_list_of_set (set (recs e))" for e1
  proof -
    have "nall e1 = length (recs e1)" by (simp add: recs_def)
    also have "\<dots> = card (set (recs e))" using that by simp
    finally show ?thesis using ne by (simp add: card_gt_0_iff)
  qed
  show ?thesis
  proof (cases "nsorted e < nall e")
    case True
    from compact_pending_wf [OF wf True, of h] obtain e1 where
      r: "compact_pending h e = Inr e1" "wf_set e1"
        "recs e1 = sorted_list_of_set (set (recs e))" "nsorted e1 = nall e1" "nall e1 \<le> nall e"
      and same: "e1\<lparr>nsorted := 0, nall := 0, data := []\<rparr> = e\<lparr>nsorted := 0, nall := 0, data := []\<rparr>"
      by blast
    from r pos' [OF r(3)] same_header_fields [OF same] True show ?thesis by simp
  next
    case False
    note w = wf_setD [OF wf]
    have eq: "nsorted e = nall e" using False w(2) by simp
    have "recs e = sorted_zone e" by (simp add: recs_def sorted_zone_def eq)
    then have r: "recs e = sorted_list_of_set (set (recs e))"
      using sorted_list_of_set_recs_id [OF w(6)] by simp
    from pos' [OF r] r show ?thesis using False wf eq by simp
  qed
qed

lemma compact_set_spec:
  assumes wf: "wf_set e" and pos: "0 < nall e" and sz: "need_space \<longrightarrow> 2 * nbytes e < 2 ^ 32"
  shows "\<exists>e'. compact_set h e need_space = Inr e' \<and> wf_set e'
    \<and> recs e' = sorted_list_of_set (set (recs e))
    \<and> nsorted e' = nall e' \<and> nall e' \<le> nall e \<and> 0 < nall e'
    \<and> item_size e' = item_size e \<and> typalign e' = typalign e
    \<and> pad e' = pad e \<and> aggctx e' = aggctx e
    \<and> nbytes e \<le> nbytes e' \<and> nbytes e' \<le> 2 * nbytes e
    \<and> (\<not> need_space \<longrightarrow> nbytes e' = nbytes e)
    \<and> (nbytes e' \<noteq> nbytes e \<longrightarrow> 4 * nbytes e < 5 * (nall e' * item_size e))
    \<and> (need_space \<longrightarrow> item_size e \<le> 8 \<longrightarrow> 32 \<le> nbytes e
          \<longrightarrow> item_size e * (nall e' + 1) \<le> nbytes e')"
proof -
  note w = wf_setD [OF wf]
  from compact_set_pre [OF wf pos, of h] obtain e1 where
    r: "(if nsorted e < nall e then compact_pending h e else Inr e) = Inr e1"
    and wf1: "wf_set e1"
    and p: "recs e1 = sorted_list_of_set (set (recs e))"
      "nsorted e1 = nall e1" "nall e1 \<le> nall e" "0 < nall e1"
      "item_size e1 = item_size e" "nbytes e1 = nbytes e" "typalign e1 = typalign e"
      "pad e1 = pad e" "aggctx e1 = aggctx e"
    by blast
  have sz1: "need_space \<longrightarrow> 2 * nbytes e1 < 2 ^ 32" using sz p(6) by simp
  note g = grow_set_spec [OF wf1 sz1, of h]
  have u: "u32 (nall e * item_size e) \<le> nbytes e" using u32_id [OF w(8)] w(3) by simp
  have c: "compact_set h e need_space = Inr (grow_set h e1 need_space)"
    unfolding compact_set_def r using pos w(2) u p(2) by simp
  show ?thesis
    unfolding c
    apply (intro exI [of _ "grow_set h e1 need_space"] conjI impI refl)
    subgoal by (rule g(1))
    subgoal using g(2) p(1) by simp
    subgoal using g(3,4) p(2) by simp
    subgoal using g(4) p(3) by simp
    subgoal using g(4) p(4) by simp
    subgoal using g(5) p(5) by simp
    subgoal using g(6) p(7) by simp
    subgoal using g(7) p(8) by simp
    subgoal using g(8) p(9) by simp
    subgoal using g(9) p(6) by simp
    subgoal using g(10) p(6) by simp
    subgoal using g(11) p(6) by simp
    subgoal using g(12) p(5,6) g(4) by simp
    subgoal using g(13) p(5,6) g(4) by simp
    done
qed

lemma chunks_wr:
  assumes "k * isz + isz \<le> length d" and "length r = isz"
  shows "chunks isz (k + 1) (wr d (k * isz) r) = chunks isz k d @ [r]"
    and "j \<le> k \<Longrightarrow> chunks isz j (wr d (k * isz) r) = chunks isz j d"
    and "length (wr d (k * isz) r) = length d"
proof -
  let ?C = "chunks isz k d" and ?rest = "drop (k * isz) d"
  have kd: "k * isz \<le> length d" using assms(1) by simp
  have lC: "\<forall>x\<in>set ?C. length x = isz" using chunks_lengths [OF kd] by blast
  have lcC: "length (concat ?C) = k * isz" using length_concat_recs [OF lC] by simp
  have d0: "d = concat ?C @ ?rest" by (rule data_split [OF kd])
  have d: "d = concat ?C @ take isz ?rest @ drop isz ?rest"
    by (subst append_take_drop_id) (rule d0)
  have lt: "length r = length (take isz ?rest)" using assms by simp
  have "wr (concat ?C @ take isz ?rest @ drop isz ?rest) (k * isz) r = concat ?C @ r @ drop isz ?rest"
    by (rule wr_at [OF lcC [symmetric] lt])
  moreover have "wr d (k * isz) r = wr (concat ?C @ take isz ?rest @ drop isz ?rest) (k * isz) r"
    using d by (rule arg_cong [where f = "\<lambda>x. wr x (k * isz) r"])
  ultimately have w: "wr d (k * isz) r = concat ?C @ r @ drop isz ?rest" by (simp only:)
  have lCr: "\<forall>x\<in>set (?C @ [r]). length x = isz" using lC assms(2) by simp
  have "chunks isz (length (?C @ [r])) (concat (?C @ [r]) @ drop isz ?rest) = ?C @ [r]"
    by (rule chunks_concat [OF lCr])
  then show "chunks isz (k + 1) (wr d (k * isz) r) = ?C @ [r]" unfolding w by simp
  show "length (wr d (k * isz) r) = length d"
    using assms by (simp add: wr_def)
  show "chunks isz j (wr d (k * isz) r) = chunks isz j d" if "j \<le> k"
  proof -
    have "j * isz \<le> k * isz" using that by (rule mult_le_mono1)
    then have jl: "j * isz \<le> length (concat ?C)" using lcC by simp
    have "chunks isz j (concat ?C @ r @ drop isz ?rest) = chunks isz j (concat ?C)"
      by (rule chunks_append_left [OF jl])
    also have "\<dots> = chunks isz j (concat ?C @ ?rest)"
      by (rule chunks_append_left [OF jl, symmetric])
    also have "concat ?C @ ?rest = d" by (rule d0 [symmetric])
    finally show ?thesis unfolding w .
  qed
qed

lemma append_item:
  assumes wf: "wf_set e" and room: "item_size e * (nall e + 1) \<le> nbytes e"
    and lv: "item_size e \<le> length v"
  shows "\<exists>e'. Assert h (u32 (item_size e * u32 (nall e + 1)) \<le> nbytes e)
            (let off = u32 (item_size e * nall e) in
             if \<not> (inb v 0 (item_size e) \<and> inb (data e) off (item_size e))
             then Inl Undefined
             else Inr (e\<lparr>data := wr (data e) off (rd v 0 (item_size e)),
                          nall := u32 (nall e + 1)\<rparr>)) = Inr e'
      \<and> wf_set e' \<and> recs e' = recs e @ [take (item_size e) v]
      \<and> nall e' = nall e + 1 \<and> nsorted e' = nsorted e \<and> nbytes e' = nbytes e
      \<and> item_size e' = item_size e \<and> typalign e' = typalign e \<and> pad e' = pad e
      \<and> aggctx e' = aggctx e"
proof -
  note w = wf_setD [OF wf]
  let ?isz = "item_size e" and ?r = "take (item_size e) v"
  let ?e' = "e\<lparr>data := wr (data e) (nall e * ?isz) ?r, nall := nall e + 1\<rparr>"
  have room': "nall e * ?isz + ?isz \<le> nbytes e" using room by (simp add: mult.commute)
  have lt: "?isz * (nall e + 1) < 2 ^ 32" using room w(5) by (rule le_less_trans)
  have "1 * (nall e + 1) \<le> ?isz * (nall e + 1)" using w(1) by (intro mult_le_mono1) simp
  then have "nall e + 1 \<le> ?isz * (nall e + 1)" by simp
  then have "nall e + 1 < 2 ^ 32" using lt by (rule le_less_trans)
  then have u1: "u32 (nall e + 1) = nall e + 1" by (rule u32_id)
  have u2: "u32 (?isz * (nall e + 1)) = ?isz * (nall e + 1)" by (rule u32_id [OF lt])
  have u3: "u32 (?isz * nall e) = nall e * ?isz" using u32_id [OF w(8)] by (simp add: mult.commute)
  have rl: "nall e * ?isz + ?isz \<le> length (data e)" using room' w(4) by (rule order_trans)
  have lr: "length ?r = ?isz" using lv by simp
  note c = chunks_wr [OF rl lr]
  have i1: "inb v 0 ?isz" using lv by (simp add: inb_def)
  have i2: "inb (data e) (nall e * ?isz) ?isz" using rl by (simp add: inb_def)
  have r1: "recs ?e' = recs e @ [?r]" using c(1) by (simp add: recs_def)
  have sz: "sorted_zone ?e' = sorted_zone e" using c(2) [OF w(2)] by (simp add: sorted_zone_def)
  have wf': "wf_set ?e'"
    using w(1,2,4,5,6) room' c(3) sz by (simp add: wf_set_def)
  show ?thesis
    unfolding u1 u2 u3 Let_def
    using room i1 i2 r1 wf' by (intro exI [of _ ?e']) (simp add: rd_def)
qed

lemma add_element_spec:
  assumes wf: "wf_set e" and i8: "item_size e \<le> 8" and n32: "32 \<le> nbytes e"
    and sz: "2 * nbytes e < 2 ^ 32" and lv: "item_size e \<le> length v"
  shows "\<exists>e'. add_element h e v = Inr e' \<and> wf_set e'
    \<and> set (recs e') = insert (take (item_size e) v) (set (recs e))
    \<and> item_size e' = item_size e \<and> typalign e' = typalign e \<and> pad e' = pad e
    \<and> aggctx e' = aggctx e
    \<and> nall e' \<le> nall e + 1 \<and> 0 < nall e' \<and> nbytes e \<le> nbytes e'
    \<and> (nbytes e' = nbytes e \<or> 2 * nbytes e' < 5 * (nall e' * item_size e))"
proof -
  note w = wf_setD [OF wf]
  let ?isz = "item_size e"
  have b: "?isz * (nall e + 1) \<le> nbytes e + 8"
  proof -
    have "?isz * (nall e + 1) = nall e * ?isz + ?isz" by (simp add: mult.commute)
    with w(3) i8 show ?thesis by arith
  qed
  have lt: "?isz * (nall e + 1) < 2 ^ 32" using b sz n32 by arith
  have "1 * (nall e + 1) \<le> ?isz * (nall e + 1)" using w(1) by (intro mult_le_mono1) simp
  then have "nall e + 1 < 2 ^ 32" using lt by simp
  then have u1: "u32 (nall e + 1) = nall e + 1" by (rule u32_id)
  have u2: "u32 (?isz * (nall e + 1)) = ?isz * (nall e + 1)" by (rule u32_id [OF lt])
  show ?thesis
  proof (cases "nbytes e < ?isz * (nall e + 1)")
    case False
    then have room: "?isz * (nall e + 1) \<le> nbytes e" by simp
    from append_item [OF wf room lv, of h] obtain e' where
      r: "Assert h (u32 (item_size e * u32 (nall e + 1)) \<le> nbytes e)
            (let off = u32 (item_size e * nall e) in
             if \<not> (inb v 0 (item_size e) \<and> inb (data e) off (item_size e))
             then Inl Undefined
             else Inr (e\<lparr>data := wr (data e) off (rd v 0 (item_size e)),
                          nall := u32 (nall e + 1)\<rparr>)) = Inr e'"
      and p: "wf_set e'" "recs e' = recs e @ [take (item_size e) v]"
        "nall e' = nall e + 1" "nbytes e' = nbytes e"
        "item_size e' = item_size e" "typalign e' = typalign e" "pad e' = pad e"
        "aggctx e' = aggctx e"
      by blast
    have "add_element h e v = Inr e'"
      unfolding add_element_def u1 u2 using False r by simp
    with p show ?thesis by (intro exI [of _ e']) simp
  next
    case True
    have pos: "0 < nall e"
    proof (rule ccontr)
      assume "\<not> 0 < nall e"
      then have "nall e = 0" by simp
      then have "?isz * (nall e + 1) = ?isz" by simp
      then have "nbytes e < ?isz" using True by (simp only:)
      with i8 n32 show False by simp
    qed
    have sz': "True \<longrightarrow> 2 * nbytes e < 2 ^ 32" using sz by simp
    from compact_set_spec [OF wf pos sz', of h] i8 n32 obtain e1 where
      c: "compact_set h e True = Inr e1" and wf1: "wf_set e1"
      and q: "recs e1 = sorted_list_of_set (set (recs e))" "nall e1 \<le> nall e"
        "item_size e1 = item_size e" "typalign e1 = typalign e" "pad e1 = pad e"
        "aggctx e1 = aggctx e" "nbytes e \<le> nbytes e1" "nbytes e1 \<le> 2 * nbytes e"
        "nbytes e1 \<noteq> nbytes e \<longrightarrow> 4 * nbytes e < 5 * (nall e1 * item_size e)"
        "item_size e * (nall e1 + 1) \<le> nbytes e1"
      by auto
    have room: "item_size e1 * (nall e1 + 1) \<le> nbytes e1" using q(3,10) by simp
    have lv1: "item_size e1 \<le> length v" using lv q(3) by simp
    from append_item [OF wf1 room lv1, of h] obtain e' where
      r: "Assert h (u32 (item_size e1 * u32 (nall e1 + 1)) \<le> nbytes e1)
            (let off = u32 (item_size e1 * nall e1) in
             if \<not> (inb v 0 (item_size e1) \<and> inb (data e1) off (item_size e1))
             then Inl Undefined
             else Inr (e1\<lparr>data := wr (data e1) off (rd v 0 (item_size e1)),
                          nall := u32 (nall e1 + 1)\<rparr>)) = Inr e'"
      and p: "wf_set e'" "recs e' = recs e1 @ [take (item_size e1) v]"
        "nall e' = nall e1 + 1" "nbytes e' = nbytes e1"
        "item_size e' = item_size e1" "typalign e' = typalign e1" "pad e' = pad e1"
        "aggctx e' = aggctx e1"
      by blast
    have a: "add_element h e v = Inr e'"
      unfolding add_element_def u1 u2 using True c r by simp
    have s: "set (recs e') = insert (take (item_size e) v) (set (recs e))"
      unfolding p(2) q(1) q(3) by simp
    have g: "nbytes e' = nbytes e \<or> 2 * nbytes e' < 5 * (nall e' * item_size e)"
    proof (cases "nbytes e1 = nbytes e")
      case True
      then show ?thesis using p(4) by simp
    next
      case False
      with q(9) have "4 * nbytes e < 5 * (nall e1 * item_size e)" by simp
      moreover have "nall e1 * item_size e \<le> nall e' * item_size e"
        unfolding p(3) by (rule mult_le_mono1) simp
      ultimately have "2 * nbytes e1 < 5 * (nall e' * item_size e)" using q(8) by arith
      then show ?thesis using p(4) by simp
    qed
    show ?thesis
      using a p(1) s g p(3-8) q(2-7) by (intro exI [of _ e']) simp
  qed
qed

lemma append_some:
  assumes ctx: "agg_context h = Some ctx"
  shows "count_distinct_append h ti (Some e) (Some v)
    = (case add_element h e v of Inl err \<Rightarrow> Inl err | Inr e1 \<Rightarrow> Inr (Some e1))"
  by (simp add: count_distinct_append_def GET_AGG_CONTEXT_def ctx)

lemma append_all_inv:
  assumes ctx: "agg_context h = Some ctx"
    and "wf_set e" and "item_size e = isz" and "isz \<le> 8" and "32 \<le> nbytes e"
    and "2 * nbytes e \<le> max 64 (5 * isz * k)" and "nall e \<le> k" and "0 < nall e"
    and "\<forall>v\<in>set vs. isz \<le> length v"
    and "5 * isz * (k + length vs) < 2 ^ 32"
  shows "\<exists>e'. append_all h ti (Some e) vs = Inr (Some e') \<and> wf_set e' \<and> item_size e' = isz
    \<and> set (recs e') = set (recs e) \<union> take isz ` set vs \<and> 0 < nall e'
    \<and> typalign e' = typalign e \<and> pad e' = pad e \<and> aggctx e' = aggctx e"
  using assms(2-)
proof (induction vs arbitrary: e k)
  case Nil
  then show ?case by simp
next
  case (Cons v vs)
  have "5 * isz * k \<le> 5 * isz * (k + length (v # vs))" by (intro mult_le_mono2) simp
  then have k32: "5 * isz * k < 2 ^ 32" using Cons.prems(9) by (rule le_less_trans)
  have sz: "2 * nbytes e < 2 ^ 32" using Cons.prems(5) k32 by simp
  have i8: "item_size e \<le> 8" and lv: "item_size e \<le> length v"
    using Cons.prems(2,3,8) by simp_all
  from add_element_spec [OF Cons.prems(1) i8 Cons.prems(4) sz lv, of h] Cons.prems(2)
  obtain e1 where
    a: "add_element h e v = Inr e1" and wf1: "wf_set e1"
    and s: "set (recs e1) = insert (take isz v) (set (recs e))"
    and p: "item_size e1 = isz" "typalign e1 = typalign e" "pad e1 = pad e" "aggctx e1 = aggctx e"
      "nall e1 \<le> nall e + 1" "0 < nall e1" "nbytes e \<le> nbytes e1"
    and g: "nbytes e1 = nbytes e \<or> 2 * nbytes e1 < 5 * (nall e1 * isz)"
    by auto
  have n32: "32 \<le> nbytes e1" using Cons.prems(4) p(7) by simp
  have nk: "nall e1 \<le> k + 1" using p(5) Cons.prems(6) by simp
  have b: "2 * nbytes e1 \<le> max 64 (5 * isz * (k + 1))"
  proof -
    from g show ?thesis
    proof
      assume "nbytes e1 = nbytes e"
      moreover have "5 * isz * k \<le> 5 * isz * (k + 1)" by (intro mult_le_mono2) simp
      ultimately show ?thesis using Cons.prems(5) by simp
    next
      assume lt: "2 * nbytes e1 < 5 * (nall e1 * isz)"
      have "nall e1 * isz \<le> (k + 1) * isz" using nk by (rule mult_le_mono1)
      then have "5 * (nall e1 * isz) \<le> 5 * ((k + 1) * isz)" by (rule mult_le_mono2)
      also have "\<dots> = 5 * isz * (k + 1)" by (simp only: mult.assoc mult.commute [of isz])
      finally have "5 * (nall e1 * isz) \<le> 5 * isz * (k + 1)" .
      with lt show ?thesis by simp
    qed
  qed
  have lvs: "\<forall>v\<in>set vs. isz \<le> length v" using Cons.prems(8) by simp
  have "k + 1 + length vs = k + length (v # vs)" by simp
  then have big: "5 * isz * (k + 1 + length vs) < 2 ^ 32" using Cons.prems(9) by (simp only:)
  from Cons.IH [OF wf1 p(1) Cons.prems(3) n32 b nk p(6) lvs big]
  obtain e' where
    r: "append_all h ti (Some e1) vs = Inr (Some e')" "wf_set e'" "item_size e' = isz"
      "set (recs e') = set (recs e1) \<union> take isz ` set vs" "0 < nall e'"
      "typalign e' = typalign e1" "pad e' = pad e1" "aggctx e' = aggctx e1"
    by blast
  have "append_all h ti (Some e) (v # vs) = Inr (Some e')"
    using r(1) a by (simp add: append_some [OF ctx])
  with r(2-) s p(2-4) show ?case by (intro exI [of _ e']) simp
qed

lemma wf_init_set:
  assumes "0 < isz"
  shows "wf_set (init_set h isz ta ctx)"
  using assms by (simp add: wf_set_def init_set_def sorted_zone_def palloc_def ARRAY_INIT_SIZE_def)

lemma count_distinct_some:
  assumes ctx: "agg_context h = Some ctx" and wf: "wf_set e" and pos: "0 < nall e"
  shows "count_distinct h (Some e) = Inr (Some (card (set (recs e))))"
proof -
  have sz: "False \<longrightarrow> 2 * nbytes e < 2 ^ 32" by simp
  from compact_set_spec [OF wf pos sz, of h] obtain e' where
    c: "compact_set h e False = Inr e'" and r: "recs e' = sorted_list_of_set (set (recs e))"
    by blast
  have "nall e' = length (recs e')" by (simp add: recs_def)
  also have "\<dots> = card (set (recs e))" unfolding r by simp
  finally show ?thesis using c by (simp add: count_distinct_def CHECK_AGG_CONTEXT_def ctx)
qed

lemma append_all_built:
  assumes ctx: "agg_context h = Some ctx" and bv: "typbyval ti"
    and t0: "0 < typlen ti" and t8: "typlen ti \<le> 8"
    and lv: "\<forall>v\<in>set vs. nat (typlen ti) \<le> length v" and ne: "vs \<noteq> []"
    and big: "5 * nat (typlen ti) * length vs < 2 ^ 32"
  shows "\<exists>e. append_all h ti None vs = Inr (Some e) \<and> wf_set e \<and> 0 < nall e
    \<and> item_size e = nat (typlen ti) \<and> set (recs e) = take (nat (typlen ti)) ` set vs
    \<and> typalign e = ti_align ti \<and> pad e = palloc h PAD_LEN \<and> aggctx e = ctx"
proof -
  let ?isz = "nat (typlen ti)"
  let ?e0 = "init_set h ?isz (ti_align ti) ctx"
  from ne obtain v vs' where vs: "vs = v # vs'" by (cases vs) auto
  have i0: "0 < ?isz" and i8: "?isz \<le> 8" using t0 t8 by simp_all
  have wf0: "wf_set ?e0" by (rule wf_init_set [OF i0])
  have f0: "item_size ?e0 = ?isz" "nbytes ?e0 = 32" "nall ?e0 = 0" "recs ?e0 = []"
    "typalign ?e0 = ti_align ti" "pad ?e0 = palloc h PAD_LEN" "aggctx ?e0 = ctx"
    by (simp_all add: init_set_def ARRAY_INIT_SIZE_def recs_def)
  have first: "count_distinct_append h ti None (Some v)
      = (case add_element h ?e0 v of Inl err \<Rightarrow> Inl err | Inr e1 \<Rightarrow> Inr (Some e1))"
    using t0 bv by (simp add: count_distinct_append_def GET_AGG_CONTEXT_def ctx)
  have a1: "item_size ?e0 \<le> 8" "32 \<le> nbytes ?e0" "2 * nbytes ?e0 < 2 ^ 32"
    "item_size ?e0 \<le> length v"
    using i8 lv by (simp_all add: f0 vs)
  from add_element_spec [OF wf0 a1, of h]
  obtain e1 where
    a: "add_element h ?e0 v = Inr e1" and wf1: "wf_set e1"
    and s: "set (recs e1) = {take ?isz v}"
    and p: "item_size e1 = ?isz" "typalign e1 = ti_align ti" "pad e1 = palloc h PAD_LEN"
      "aggctx e1 = ctx" "nall e1 \<le> 1" "0 < nall e1" "32 \<le> nbytes e1"
    and g: "nbytes e1 = 32 \<or> 2 * nbytes e1 < 5 * (nall e1 * ?isz)"
    unfolding f0 by auto
  have b: "2 * nbytes e1 \<le> max 64 (5 * ?isz * 1)"
  proof -
    from g show ?thesis
    proof
      assume "nbytes e1 = 32"
      then show ?thesis by simp
    next
      assume lt: "2 * nbytes e1 < 5 * (nall e1 * ?isz)"
      have "nall e1 * ?isz \<le> 1 * ?isz" using p(5) by (rule mult_le_mono1)
      then have "5 * (nall e1 * ?isz) \<le> 5 * (1 * ?isz)" by (rule mult_le_mono2)
      with lt have "2 * nbytes e1 < 5 * (1 * ?isz)" by (rule less_le_trans)
      then show ?thesis by simp
    qed
  qed
  have lvs: "\<forall>v\<in>set vs'. ?isz \<le> length v" using lv vs by simp
  have big': "5 * ?isz * (1 + length vs') < 2 ^ 32" using big vs by simp
  from append_all_inv [OF ctx wf1 p(1) i8 p(7) b p(5,6) lvs big', of ti]
  obtain e' where
    r: "append_all h ti (Some e1) vs' = Inr (Some e')" "wf_set e'" "item_size e' = ?isz"
      "set (recs e') = set (recs e1) \<union> take ?isz ` set vs'" "0 < nall e'"
      "typalign e' = typalign e1" "pad e' = pad e1" "aggctx e' = aggctx e1"
    by blast
  have "append_all h ti None vs = Inr (Some e')"
    unfolding vs using first a r(1) by simp
  moreover have "set (recs e') = take ?isz ` set vs" unfolding r(4) s vs by simp
  ultimately show ?thesis using r(2,3,5-) p(2-4) by (intro exI [of _ e']) simp
qed

text \<open>
  C1. Appending the values of a non-empty list one at a time to the NULL state and calling
  the final function gives the number of distinct items among them, an item being the first
  \<open>typlen\<close> bytes of a value; the result depends on the set of the items only, so neither
  the order of the values nor the compactions on the way matter. The element type is
  passed by value (so \<open>typlen\<close> is at most the 8 bytes of a \<open>Datum\<close>), and the values are
  few enough for the array to stay within the range of its \<open>uint32\<close> size. Without any
  value the state stays NULL and so does the result.
\<close>

theorem count_correct:
  assumes "agg_context h = Some ctx" and "typbyval ti" and "0 < typlen ti" and "typlen ti \<le> 8"
    and "\<forall>v\<in>set vs. nat (typlen ti) \<le> length v"
    and "5 * nat (typlen ti) * length vs < 2 ^ 32"
  shows "\<exists>st. append_all h ti None vs = Inr st \<and>
    count_distinct h st
      = Inr (if vs = [] then None else Some (card (take (nat (typlen ti)) ` set vs)))"
proof (cases "vs = []")
  case True
  then show ?thesis
    using assms(1) by (simp add: count_distinct_def CHECK_AGG_CONTEXT_def)
next
  case False
  from append_all_built [OF assms(1-5) False assms(6)] obtain e where
    e: "append_all h ti None vs = Inr (Some e)" "wf_set e" "0 < nall e"
      "set (recs e) = take (nat (typlen ti)) ` set vs"
    by blast
  from count_distinct_some [OF assms(1) e(2,3)] e(1,4) False show ?thesis by simp
qed

theorem count_correct_witness:
  "agg_context (ex_host True (\<lambda>_. 0)) = Some (replicate 8 0) \<and> typbyval int4 \<and> 0 < typlen int4
   \<and> typlen int4 \<le> 8 \<and> list_all (\<lambda>v. nat (typlen int4) \<le> length v) (map datum [5, 3, 5, 1, 3, 2])
   \<and> 5 * nat (typlen int4) * length (map datum [5, 3, 5, 1, 3, 2]) < 2 ^ 32
   \<and> (\<exists>st. append_all (ex_host True (\<lambda>_. 0)) int4 None (map datum [5, 3, 5, 1, 3, 2]) = Inr st
         \<and> count_distinct (ex_host True (\<lambda>_. 0)) st = Inr (Some 4))"
proof -
  have h1: "agg_context (ex_host True (\<lambda>_. 0)) = Some (replicate 8 0)" by code_simp
  have h2: "typbyval int4" by code_simp
  have h3: "0 < typlen int4" by code_simp
  have h4: "typlen int4 \<le> 8" by code_simp
  have h5: "\<forall>v\<in>set (map datum [5, 3, 5, 1, 3, 2]). nat (typlen int4) \<le> length v" by code_simp
  have h6: "5 * nat (typlen int4) * length (map datum [5, 3, 5, 1, 3, 2]) < 2 ^ 32" by code_simp
  have c: "(if map datum [5, 3, 5, 1, 3, 2] = [] then None
            else Some (card (take (nat (typlen int4)) ` set (map datum [5, 3, 5, 1, 3, 2])))) = Some 4"
    by code_simp
  have h5': "list_all (\<lambda>v. nat (typlen int4) \<le> length v) (map datum [5, 3, 5, 1, 3, 2])"
    using h5 by (simp only: list_all_iff)
  from count_correct [OF h1 h2 h3 h4 h5 h6] show ?thesis
    unfolding c using h1 h2 h3 h4 h5' h6 by blast
qed

lemma ex_acc_built: "built (ex_host True (\<lambda>_. 0)) [5, 3, 5, 1, 3, 2] = Some ex_acc"
  by code_simp

text \<open>
  C8. On an accumulator that satisfies the invariant, holds at least one item and is not
  larger than \<open>MaxAllocSize\<close>, a second call of \<^verbatim>\<open>compact_set\<close> with the same
  \<^verbatim>\<open>need_space\<close> flag succeeds like the first and leaves \<^verbatim>\<open>nsorted\<close>, \<^verbatim>\<open>nall\<close> and the
  items as the first call left them. (The capacity may grow once more.)
\<close>

theorem compact_set_idempotent:
  assumes "wf_set e" and "0 < nall e" and "nbytes e \<le> MaxAllocSize"
  shows "\<exists>e1 e2. compact_set h e need_space = Inr e1 \<and> compact_set h e1 need_space = Inr e2
    \<and> nsorted e2 = nsorted e1 \<and> nall e2 = nall e1 \<and> recs e2 = recs e1"
proof -
  have sz: "need_space \<longrightarrow> 2 * nbytes e < 2 ^ 32"
    using assms(3) by (simp add: MaxAllocSize_def)
  from compact_set_spec [OF assms(1,2) sz, of h] obtain e1 where
    c1: "compact_set h e need_space = Inr e1" and wf1: "wf_set e1"
    and r1: "recs e1 = sorted_list_of_set (set (recs e))" "nsorted e1 = nall e1" "0 < nall e1"
      "nbytes e1 \<le> 2 * nbytes e"
    by blast
  have sz1: "need_space \<longrightarrow> 2 * nbytes e1 < 2 ^ 32"
    using assms(3) r1(4) by (simp add: MaxAllocSize_def)
  from compact_set_spec [OF wf1 r1(3) sz1, of h] obtain e2 where
    c2: "compact_set h e1 need_space = Inr e2"
    and r2: "recs e2 = sorted_list_of_set (set (recs e1))" "nsorted e2 = nall e2"
    by blast
  have same: "recs e2 = recs e1" unfolding r2(1) r1(1) by simp
  have "nall e2 = length (recs e2)" by (simp add: recs_def)
  also have "\<dots> = length (recs e1)" by (simp only: same)
  also have "\<dots> = nall e1" by (simp add: recs_def)
  finally have "nall e2 = nall e1" .
  with c1 c2 same r1(2) r2(2) show ?thesis by simp
qed

theorem compact_set_idempotent_witness:
  "wf_set ex_acc \<and> 0 < nall ex_acc \<and> nbytes ex_acc \<le> MaxAllocSize
   \<and> (\<exists>e1 e2. compact_set (ex_host True (\<lambda>_. 0)) ex_acc True = Inr e1
         \<and> compact_set (ex_host True (\<lambda>_. 0)) e1 True = Inr e2
         \<and> nsorted e2 = nsorted e1 \<and> nall e2 = nall e1 \<and> recs e2 = recs e1)"
proof -
  have h1: "wf_set ex_acc" by code_simp
  have h2: "0 < nall ex_acc" by code_simp
  have h3: "nbytes ex_acc \<le> MaxAllocSize" by code_simp
  from compact_set_idempotent [OF h1 h2 h3] h1 h2 h3 show ?thesis by blast
qed

subsection \<open>Combining accumulators that have spare capacity\<close>

text \<open>
  C2. Combining two accumulators should give the count and the values of one accumulator
  fed with both inputs. The merge loop of \<^verbatim>\<open>count_distinct_combine\<close> scans each operand up
  to \<^verbatim>\<open>data + nbytes\<close>, its capacity, and not up to its last item. The accumulator built from
  the values 1, 1 has capacity 32 and, once compacted, the item 1 followed by the stale copy
  of 1 that the removal of duplicates left behind; combined with the accumulator built
  from 2, the stale copy is read as an item, the loop ends after two turns, and 2 is never
  reached: the result counts one value where the accumulator built from 1, 1, 2 counts
  two. This holds whatever the content \<open>f\<close> of fresh memory is. With assertion checking
  the same call stops at the assertion that the first scan ended at its last item.
\<close>

theorem combine_slack_drops_value:
  "combine_finalize (ex_host False f) (built (ex_host False f) [1, 1]) (built (ex_host False f) [2])
     = Inr (Inr (Some 1), Inr [datum 1])
   \<and> finalize (ex_host False f) (built (ex_host False f) [1, 1, 2])
     = (Inr (Some 2), Inr [datum 1, datum 2])
   \<and> count_distinct_combine (ex_host True f) (built (ex_host True f) [1, 1])
        (built (ex_host True f) [2]) = Inl AssertFailed"
  by code_simp

text \<open>
  C6. Every grouping of the operands of combine should give the same values. With the
  accumulators built from 1, 1, from 2, 2 and from 3, combining the first two and then
  the third gives 1, 3, while combining the first with the combination of the other two
  gives 1: in each case a stale copy beyond the last item of an operand is read as an
  item. Neither is 1, 2, 3.
\<close>

theorem combine_grouping_differs:
  "(case count_distinct_combine (ex_host False f) (built (ex_host False f) [1, 1])
           (built (ex_host False f) [2, 2]) of
      Inl err \<Rightarrow> Inl err
    | Inr ab \<Rightarrow> combine_finalize (ex_host False f) ab (built (ex_host False f) [3]))
     = Inr (Inr (Some 2), Inr [datum 1, datum 3])
   \<and> (case count_distinct_combine (ex_host False f) (built (ex_host False f) [2, 2])
           (built (ex_host False f) [3]) of
      Inl err \<Rightarrow> Inl err
    | Inr bc \<Rightarrow> combine_finalize (ex_host False f) (built (ex_host False f) [1, 1]) bc)
     = Inr (Inr (Some 1), Inr [datum 1])"
  by code_simp

text \<open>
  C7. The sorted zone should be strictly increasing after every operation that compacts.
  The accumulator built from 1, 1, 1, 2, 3 keeps, after its compaction, the stale items
  2 and 3 behind the items 1, 2, 3. Combined with the accumulator built from 5, the merge
  loop reads the stale 2 as the fourth item: the sorted zone of the result is 1, 2, 3, 2,
  which is not increasing, and 5 is lost. With assertion checking the call stops at the
  assertion that each kept item is greater than the one before.
\<close>

theorem combine_slack_unsorted:
  "(case count_distinct_combine (ex_host False f) (built (ex_host False f) [1, 1, 1, 2, 3])
           (built (ex_host False f) [5]) of
      Inr (Some e) \<Rightarrow> sorted_zone e = [enc32 1, enc32 2, enc32 3, enc32 2]
                      \<and> \<not> sorted_wrt (<) (sorted_zone e)
    | _ \<Rightarrow> False)
   \<and> count_distinct_combine (ex_host True f) (built (ex_host True f) [1, 1, 1, 2, 3])
        (built (ex_host True f) [5]) = Inl AssertFailed"
  by code_simp

end
